theory Spec2Isabelle
  imports Main
begin

section \<open>JavaScript strings\<close>

text \<open>
  A JavaScript string is a sequence of UTF-16 code units. A code unit is modelled as a
  natural number and a string as a list of them; \<open>js\<close> embeds an ASCII literal.
\<close>

type_synonym jsstring = "nat list"

abbreviation js :: "string \<Rightarrow> jsstring" where
  "js s \<equiv> map of_char s"

text \<open>
  The class \<open>\s\<close> of a regular expression and the characters removed by
  \<open>String.prototype.trim\<close> are the same set: WhiteSpace and LineTerminator.
\<close>

definition is_space :: "nat \<Rightarrow> bool" where
  "is_space c = (c = 9 \<or> c = 10 \<or> c = 11 \<or> c = 12 \<or> c = 13 \<or> c = 32 \<or> c = 160
     \<or> c = 5760 \<or> (8192 \<le> c \<and> c \<le> 8202) \<or> c = 8232 \<or> c = 8233 \<or> c = 8239
     \<or> c = 8287 \<or> c = 12288 \<or> c = 65279)"

definition trimStart :: "jsstring \<Rightarrow> jsstring" where
  "trimStart s = dropWhile is_space s"

definition trimEnd :: "jsstring \<Rightarrow> jsstring" where
  "trimEnd s = rev (dropWhile is_space (rev s))"

definition trim :: "jsstring \<Rightarrow> jsstring" where
  "trim s = trimEnd (trimStart s)"

section \<open>Task flag: \<open>/(^|\s):task(\s|$)/i\<close>\<close>

text \<open>
  The literal \<open>:task\<close> under the \<open>i\<close> flag (no \<open>u\<close> flag): a code unit matches a
  pattern letter when both have the same upper-case code unit, and a non-ASCII code unit
  is never folded onto an ASCII one, so only the ASCII letters of either case match.
\<close>

fun lit_task :: "jsstring \<Rightarrow> bool" where
  "lit_task (c0 # c1 # c2 # c3 # c4 # _) =
     (c0 = 58 \<and> (c1 = 116 \<or> c1 = 84) \<and> (c2 = 97 \<or> c2 = 65)
      \<and> (c3 = 115 \<or> c3 = 83) \<and> (c4 = 107 \<or> c4 = 75))"
| "lit_task _ = False"

text \<open>The group \<open>(\s|$)\<close> at a suffix of the input: the number of code units it consumes.\<close>

definition right_edge :: "jsstring \<Rightarrow> nat option" where
  "right_edge s = (case s of [] \<Rightarrow> Some 0 | c # _ \<Rightarrow> if is_space c then Some 1 else None)"

text \<open>\<open>:task(\s|$)\<close> at a suffix of the input: the length of the match.\<close>

definition match_tail :: "jsstring \<Rightarrow> nat option" where
  "match_tail s = (if lit_task s then map_option (\<lambda>n. 5 + n) (right_edge (drop 5 s)) else None)"

text \<open>
  The whole pattern tried at one position. \<open>at_start\<close> tells whether the position is
  index 0, the only place where \<open>^\<close> matches (there is no \<open>m\<close> flag). The alternative
  \<open>^\<close> is tried before \<open>\s\<close>.
\<close>

definition match_at :: "bool \<Rightarrow> jsstring \<Rightarrow> nat option" where
  "match_at at_start s =
     (case (if at_start then match_tail s else None) of
        Some n \<Rightarrow> Some n
      | None \<Rightarrow> (case s of [] \<Rightarrow> None
                 | c # r \<Rightarrow> if is_space c then map_option Suc (match_tail r) else None))"

text \<open>\<open>RegExp.prototype.test\<close>: the pattern is tried at every position from the left.\<close>

fun test_from :: "bool \<Rightarrow> jsstring \<Rightarrow> bool" where
  "test_from b [] = (match_at b [] \<noteq> None)"
| "test_from b (c # r) = (match_at b (c # r) \<noteq> None \<or> test_from False r)"

definition hasTaskFlag :: "jsstring \<Rightarrow> bool" where
  "hasTaskFlag s = test_from True s"

text \<open>
  \<open>String.prototype.replace\<close> with the \<open>g\<close> flag and the replacement \<open>" "\<close>: after
  a match the scan resumes at the end of the match; where nothing matches the code unit
  is copied and the scan moves on by one.
\<close>

function replace_from :: "bool \<Rightarrow> jsstring \<Rightarrow> jsstring" where
  "replace_from b s =
     (case match_at b s of
        Some n \<Rightarrow> 32 # replace_from False (drop n s)
      | None \<Rightarrow> (case s of [] \<Rightarrow> [] | c # r \<Rightarrow> c # replace_from False r))"
  by pat_completeness auto

lemma match_tail_pos: "match_tail s = Some n \<Longrightarrow> 5 \<le> n \<and> s \<noteq> []"
  by (cases s) (auto simp: match_tail_def split: if_splits)

lemma match_at_pos: "match_at b s = Some n \<Longrightarrow> 0 < n \<and> s \<noteq> []"
  by (auto simp: match_at_def split: if_splits option.splits list.splits dest: match_tail_pos)

termination replace_from
proof (relation "measure (\<lambda>(b, s). length s)")
  show "wf (measure (\<lambda>(b, s). length s))" by simp
next
  fix b s n
  assume "match_at b s = Some n"
  then have "0 < n \<and> s \<noteq> []" by (rule match_at_pos)
  then show "((False, drop n s), (b, s)) \<in> measure (\<lambda>(b, s). length s)" by simp
next
  fix b s c r
  assume "s = c # r"
  then show "((False, r), (b, s)) \<in> measure (\<lambda>(b, s). length s)" by simp
qed

definition stripTaskFlag :: "jsstring \<Rightarrow> jsstring" where
  "stripTaskFlag content = trim (replace_from True content)"

section \<open>Checklist toggle\<close>

text \<open>
  \<open>fenceRe = /```[\s\S]*?```/g\<close>. \<open>find_fence\<close> gives the index of the first three
  backticks of a string. The lazy body ends at the first three backticks that start at
  least three code units after the opening ones; when the first opening has no closing,
  no later opening has one either, and \<open>exec\<close> returns null.
\<close>

fun is_fence_at :: "jsstring \<Rightarrow> bool" where
  "is_fence_at (a # b # c # _) = (a = 96 \<and> b = 96 \<and> c = 96)"
| "is_fence_at _ = False"

fun find_fence :: "jsstring \<Rightarrow> nat option" where
  "find_fence [] = None"
| "find_fence (c # r) = (if is_fence_at (c # r) then Some 0 else map_option Suc (find_fence r))"

text \<open>
  \<open>fenceRe.exec\<close> on the part of the content from \<open>lastIndex\<close> on: the offset of the
  match in that part and the length of the match.
\<close>

definition fence_exec :: "jsstring \<Rightarrow> (nat \<times> nat) option" where
  "fence_exec s =
     (case find_fence s of
        None \<Rightarrow> None
      | Some i \<Rightarrow> (case find_fence (drop (i + 3) s) of
                    None \<Rightarrow> None
                  | Some j \<Rightarrow> Some (i, j + 6)))"

text \<open>\<open>plain.split("\n")\<close> and \<open>lines.join("\n")\<close>.\<close>

fun split_nl :: "jsstring \<Rightarrow> jsstring list" where
  "split_nl [] = [[]]"
| "split_nl (c # r) =
     (if c = 10 then [] # split_nl r
      else (case split_nl r of l # ls \<Rightarrow> (c # l) # ls | [] \<Rightarrow> [[c]]))"

fun join_nl :: "jsstring list \<Rightarrow> jsstring" where
  "join_nl [] = []"
| "join_nl [l] = l"
| "join_nl (l # ls) = l @ 10 # join_nl ls"

text \<open>The test \<open>/^- \[( |x|X)\] /\<close> on one line.\<close>

fun is_checklist :: "jsstring \<Rightarrow> bool" where
  "is_checklist (a # b # c # d # e # f # _) =
     (a = 45 \<and> b = 32 \<and> c = 91 \<and> (d = 32 \<or> d = 120 \<or> d = 88) \<and> e = 93 \<and> f = 32)"
| "is_checklist _ = False"

text \<open>
  \<open>line.replace(/^- \[( |x|X)\] /, checked ? "- [x] " : "- [ ] ")\<close> on a line that
  passed the test: the six matched code units are replaced.
\<close>

definition rewrite_line :: "bool \<Rightarrow> jsstring \<Rightarrow> jsstring" where
  "rewrite_line checked line =
     (if checked then [45, 32, 91, 120, 93, 32] else [45, 32, 91, 32, 93, 32]) @ drop 6 line"

text \<open>
  The loop of \<open>replaceInPlain\<close> over the lines. The counters \<open>seen\<close> and \<open>updated\<close>
  are variables of the enclosing function, so they are passed in and returned.
\<close>

fun toggle_lines :: "int \<Rightarrow> bool \<Rightarrow> jsstring list \<Rightarrow> nat \<Rightarrow> bool \<Rightarrow> jsstring list \<times> nat \<times> bool" where
  "toggle_lines ordinal checked [] seen updated = ([], seen, updated)"
| "toggle_lines ordinal checked (line # ls) seen updated =
     (if \<not> is_checklist line then
        (case toggle_lines ordinal checked ls seen updated of
           (ls', seen', updated') \<Rightarrow> (line # ls', seen', updated'))
      else if int seen = ordinal then
        (case toggle_lines ordinal checked ls (seen + 1) True of
           (ls', seen', updated') \<Rightarrow> (rewrite_line checked line # ls', seen', updated'))
      else
        (case toggle_lines ordinal checked ls (seen + 1) updated of
           (ls', seen', updated') \<Rightarrow> (line # ls', seen', updated')))"

definition replaceInPlain :: "int \<Rightarrow> bool \<Rightarrow> jsstring \<Rightarrow> nat \<Rightarrow> bool \<Rightarrow> jsstring \<times> nat \<times> bool" where
  "replaceInPlain ordinal checked plain seen updated =
     (case toggle_lines ordinal checked (split_nl plain) seen updated of
        (ls', seen', updated') \<Rightarrow> (join_nl ls', seen', updated'))"

lemma find_fence_bound: "find_fence s = Some i \<Longrightarrow> i + 3 \<le> length s"
proof (induction s arbitrary: i)
  case Nil
  then show ?case by simp
next
  case (Cons c r)
  show ?case
  proof (cases "is_fence_at (c # r)")
    case True
    then have "3 \<le> length (c # r)" by (cases r rule: is_fence_at.cases) auto
    with True Cons.prems show ?thesis by simp
  next
    case False
    with Cons.prems obtain k where "find_fence r = Some k" "i = Suc k" by auto
    with Cons.IH show ?thesis by simp
  qed
qed

lemma fence_exec_bound: "fence_exec s = Some (i, n) \<Longrightarrow> 6 \<le> n \<and> i + n \<le> length s"
  by (auto simp: fence_exec_def split: option.splits dest!: find_fence_bound)

text \<open>
  The \<open>while\<close> loop of \<open>applyChecklistToggle\<close>, on the part of the content from
  \<open>last\<close> on; it returns what is appended to \<open>out\<close> and the two counters.
\<close>

function scan_fences :: "int \<Rightarrow> bool \<Rightarrow> jsstring \<Rightarrow> nat \<Rightarrow> bool \<Rightarrow> jsstring \<times> nat \<times> bool" where
  "scan_fences ordinal checked rest seen updated =
     (case fence_exec rest of
        None \<Rightarrow> replaceInPlain ordinal checked rest seen updated
      | Some (i, n) \<Rightarrow>
          (case replaceInPlain ordinal checked (take i rest) seen updated of
             (plain', seen', updated') \<Rightarrow>
               (case scan_fences ordinal checked (drop (i + n) rest) seen' updated' of
                  (out, seen'', updated'') \<Rightarrow>
                    (plain' @ take n (drop i rest) @ out, seen'', updated''))))"
  by pat_completeness auto

termination scan_fences
proof (relation "measure (\<lambda>(ordinal, checked, rest, seen, updated). length rest)")
  show "wf (measure (\<lambda>(ordinal, checked, rest, seen, updated). length rest))" by simp
next
  fix ordinal :: int and checked :: bool and rest :: jsstring and seen :: nat
    and updated :: bool and x2 x y plain' y' seen' updated'
  assume "fence_exec rest = Some x2" "(x, y) = x2"
  then have "fence_exec rest = Some (x, y)" by simp
  then have "6 \<le> y \<and> x + y \<le> length rest" by (rule fence_exec_bound)
  then have "length rest - (x + y) < length rest" by arith
  then show "((ordinal, checked, drop (x + y) rest, seen', updated'),
              (ordinal, checked, rest, seen, updated))
             \<in> measure (\<lambda>(ordinal, checked, rest, seen, updated). length rest)"
    by simp
qed

definition applyChecklistToggle :: "jsstring \<Rightarrow> int \<Rightarrow> bool \<Rightarrow> jsstring" where
  "applyChecklistToggle content ordinal checked =
     (if ordinal < 0 then content
      else (case scan_fences ordinal checked content 0 False of
              (out, seen, updated) \<Rightarrow> if updated then out else content))"

text \<open>
  The parts of the content that the loop hands to \<open>replaceInPlain\<close>: what lies before,
  between and after the fenced blocks. The checklist lines of these parts, in document
  order, are the lines that \<open>seen\<close> counts, so the line with ordinal \<open>k\<close> is the
  \<open>k\<close>-th of them.
\<close>

function plain_segments :: "jsstring \<Rightarrow> jsstring list" where
  "plain_segments rest =
     (case fence_exec rest of
        None \<Rightarrow> [rest]
      | Some (i, n) \<Rightarrow> take i rest # plain_segments (drop (i + n) rest))"
  by pat_completeness auto

termination plain_segments
proof (relation "measure length")
  show "wf (measure length)" by simp
next
  fix rest :: jsstring and x2 x y
  assume "fence_exec rest = Some x2" "(x, y) = x2"
  then have "fence_exec rest = Some (x, y)" by simp
  then have "6 \<le> y \<and> x + y \<le> length rest" by (rule fence_exec_bound)
  then have "length rest - (x + y) < length rest" by arith
  then show "(drop (x + y) rest, rest) \<in> measure length" by simp
qed

definition checklist_lines :: "jsstring \<Rightarrow> jsstring list" where
  "checklist_lines content =
     concat (map (\<lambda>plain. filter is_checklist (split_nl plain)) (plain_segments content))"

text \<open>The fenced blocks, in order: the matches that the loop copies to \<open>out\<close> as they are.\<close>

function fences :: "jsstring \<Rightarrow> jsstring list" where
  "fences rest =
     (case fence_exec rest of
        None \<Rightarrow> []
      | Some (i, n) \<Rightarrow> take n (drop i rest) # fences (drop (i + n) rest))"
  by pat_completeness auto

termination fences
proof (relation "measure length")
  show "wf (measure length)" by simp
next
  fix rest :: jsstring and x2 x y
  assume "fence_exec rest = Some x2" "(x, y) = x2"
  then have "fence_exec rest = Some (x, y)" by simp
  then have "6 \<le> y \<and> x + y \<le> length rest" by (rule fence_exec_bound)
  then have "length rest - (x + y) < length rest" by arith
  then show "(drop (x + y) rest, rest) \<in> measure length" by simp
qed

text \<open>The checklist lines of a list of plain parts, in order.\<close>

definition checklist_lines_in :: "jsstring list \<Rightarrow> jsstring list" where
  "checklist_lines_in segments =
     concat (map (\<lambda>plain. filter is_checklist (split_nl plain)) segments)"

text \<open>The content put together again: plain part, fenced block, plain part, and so on.\<close>

fun interleave :: "jsstring list \<Rightarrow> jsstring list \<Rightarrow> jsstring" where
  "interleave [] fs = concat fs"
| "interleave (p # ps) [] = p @ concat ps"
| "interleave (p # ps) (f # fs) = p @ f @ interleave ps fs"

text \<open>
  A fenced block in words: three backticks start at index \<open>j\<close>; the first fenced block of
  a string starts at the first such index \<open>i\<close> and has length \<open>n\<close> when it ends with the
  first three backticks that start at index \<open>i + 3\<close> or later.
\<close>

definition fence_mark_at :: "jsstring \<Rightarrow> nat \<Rightarrow> bool" where
  "fence_mark_at s j = (take 3 (drop j s) = js ''```'')"

definition first_fence :: "jsstring \<Rightarrow> nat \<Rightarrow> nat \<Rightarrow> bool" where
  "first_fence s i n =
     (6 \<le> n \<and> fence_mark_at s i \<and> fence_mark_at s (i + n - 3)
      \<and> (\<forall>j<i. \<not> fence_mark_at s j)
      \<and> (\<forall>j. i + 3 \<le> j \<and> j < i + n - 3 \<longrightarrow> \<not> fence_mark_at s j))"

section \<open>Title and note of a task\<close>

text \<open>\<open>.replace(/\r\n/g, "\n")\<close>.\<close>

fun replace_crlf :: "jsstring \<Rightarrow> jsstring" where
  "replace_crlf (a # b # r) =
     (if a = 13 \<and> b = 10 then 10 # replace_crlf r else a # replace_crlf (b # r))"
| "replace_crlf s = s"

text \<open>The result \<open>{ title, note }\<close>; a \<open>null\<close> title is \<open>None\<close>.\<close>

definition parseTaskPayload :: "jsstring \<Rightarrow> jsstring option \<times> jsstring" where
  "parseTaskPayload content =
     (let cleaned = trimEnd (replace_crlf (stripTaskFlag content)) in
      if 10 \<notin> set cleaned then
        (let title = trim cleaned in
         if title = [] then (None, []) else (Some title, []))
      else
        (let newlineIndex = length (takeWhile (\<lambda>c. c \<noteq> 10) cleaned);
             title = trim (take newlineIndex cleaned) in
         if title = [] then (None, [])
         else (Some title,
               trimEnd (dropWhile (\<lambda>c. c = 10) (drop (newlineIndex + 1) cleaned)))))"

section \<open>The store\<close>

text \<open>
  The tables of \<open>initDb\<close> that the commands below read or write (all but \<open>replies\<close> and
  \<open>thread_reads\<close>), each as the list of its rows in insertion order. A column \<open>INTEGER PRIMARY KEY AUTOINCREMENT\<close> takes one more
  than the largest id the table ever held, which the store keeps per table. Timestamps
  are seconds; \<open>now\<close> is passed to every command, and \<open>datetime('now', '+n days')\<close> is
  \<open>now + n * 86400\<close>.
\<close>

datatype TaskStatus = Open | Doing | Done

record user_row =
  u_id :: int
  u_name :: jsstring
  u_email :: jsstring

record session_row =
  s_id :: jsstring
  s_user_id :: int
  s_created_at :: int
  s_expires_at :: int
  s_revoked_at :: "int option"

record channel_row =
  c_id :: int
  c_name :: jsstring
  c_created_at :: int

record thread_row =
  th_id :: int
  th_channel_id :: int
  th_title :: jsstring
  th_created_by :: int
  th_created_at :: int

record message_row =
  m_id :: int
  m_thread_id :: int
  m_user_id :: int
  m_content :: jsstring
  m_created_at :: int

record task_row =
  t_id :: int
  t_message_id :: int
  t_channel_id :: int
  t_thread_id :: int
  t_created_by :: int
  t_title :: jsstring
  t_note :: jsstring
  t_status :: TaskStatus
  t_created_at :: int
  t_updated_at :: int

record store =
  users :: "user_row list"
  sessions :: "session_row list"
  channels :: "channel_row list"
  channels_seq :: int
  threads :: "thread_row list"
  threads_seq :: int
  messages :: "message_row list"
  messages_seq :: int
  tasks :: "task_row list"
  tasks_seq :: int

definition days :: "int \<Rightarrow> int" where
  "days n = n * 86400"

text \<open>
  The answer of a command: the JSON body of a success, or the HTTP status and the
  \<open>error\<close> text of a failure. Events sent to the stream clients are not part of the
  store and are left out.
\<close>

datatype 'a response = Json 'a | Error nat string

section \<open>Sessions\<close>

record request =
  query_sid :: "jsstring option"
  header_sid :: "jsstring option"

definition SESSION_TTL_DAYS :: "int option \<Rightarrow> int" where
  "SESSION_TTL_DAYS env = (case env of None \<Rightarrow> 7 | Some n \<Rightarrow> n)"

text \<open>\<open>querySid || headerSid\<close>: an empty string is falsy.\<close>

definition getSessionId :: "request \<Rightarrow> jsstring option" where
  "getSessionId req =
     (let headerSid = (case header_sid req of None \<Rightarrow> None
                       | Some h \<Rightarrow> if h = [] then None else Some h) in
      case query_sid req of
        None \<Rightarrow> headerSid
      | Some q \<Rightarrow> if q = [] then headerSid else Some q)"

definition session_dead :: "int \<Rightarrow> session_row \<Rightarrow> bool" where
  "session_dead now s = (s_expires_at s \<le> now \<or> s_revoked_at s \<noteq> None)"

text \<open>
  \<open>getCurrentUser\<close>: the \<open>DELETE\<close>, then the \<open>SELECT\<close> of the session joined with its
  user.
\<close>

definition select_session_user :: "store \<Rightarrow> int \<Rightarrow> jsstring \<Rightarrow> user_row option" where
  "select_session_user st now sid =
     (case filter (\<lambda>s. s_id s = sid \<and> s_revoked_at s = None \<and> now < s_expires_at s) (sessions st) of
        [] \<Rightarrow> None
      | s # _ \<Rightarrow> find (\<lambda>u. u_id u = s_user_id s) (users st))"

definition getCurrentUser :: "store \<Rightarrow> int \<Rightarrow> request \<Rightarrow> user_row option \<times> store" where
  "getCurrentUser st now req =
     (case getSessionId req of
        None \<Rightarrow> (None, st)
      | Some sid \<Rightarrow>
          (let st' = st\<lparr>sessions := filter (\<lambda>s. \<not> session_dead now s) (sessions st)\<rparr>
           in (select_session_user st' now sid, st')))"

text \<open>
  \<open>requireAuth\<close>: \<open>None\<close> is the answer 401; otherwise the expiry of the session is moved
  and the handler runs for the user.
\<close>

definition requireAuth :: "int option \<Rightarrow> store \<Rightarrow> int \<Rightarrow> request \<Rightarrow> user_row option \<times> store" where
  "requireAuth env st now req =
     (case getCurrentUser st now req of
        (None, st') \<Rightarrow> (None, st')
      | (Some user, st') \<Rightarrow>
          (case getSessionId req of
             None \<Rightarrow> (None, st')
           | Some sid \<Rightarrow>
               (Some user,
                st'\<lparr>sessions :=
                      map (\<lambda>s. if s_id s = sid
                                then s\<lparr>s_expires_at := now + days (SESSION_TTL_DAYS env)\<rparr> else s)
                          (sessions st')\<rparr>)))"

section \<open>Channels and threads\<close>

definition insert_thread :: "store \<Rightarrow> int \<Rightarrow> int \<Rightarrow> jsstring \<Rightarrow> int \<Rightarrow> int \<times> store" where
  "insert_thread st now channel_id title created_by =
     (let lastID = threads_seq st + 1 in
      (lastID,
       st\<lparr>threads := threads st @
              [\<lparr>th_id = lastID, th_channel_id = channel_id, th_title = title,
                th_created_by = created_by, th_created_at = now\<rparr>],
          threads_seq := lastID\<rparr>))"

text \<open>
  \<open>POST /channels\<close>. An empty name fails validation; the 400 answer then carries the
  flattened validation error, written \<open>validation\<close> here. The name is \<open>UNIQUE\<close>: a second
  channel of the same name makes the first \<open>INSERT\<close> throw, and the \<open>catch\<close> answers 400.
\<close>

definition create_channel :: "store \<Rightarrow> int \<Rightarrow> user_row \<Rightarrow> jsstring \<Rightarrow> channel_row option response \<times> store" where
  "create_channel st now user name =
     (if length name < 1 then (Error 400 ''validation'', st)
      else if name \<in> c_name ` set (channels st) then (Error 400 ''Channel name already exists.'', st)
      else
        (let lastID = channels_seq st + 1;
             st1 = st\<lparr>channels := channels st @ [\<lparr>c_id = lastID, c_name = name, c_created_at = now\<rparr>],
                      channels_seq := lastID\<rparr>;
             channel = find (\<lambda>c. c_id c = lastID) (channels st1);
             (mainThreadId, st2) = insert_thread st1 now lastID (js ''main'') (u_id user)
         in (Json channel, st2)))"

text \<open>\<open>POST /channels/:channelId/threads\<close>: the channel id is not looked up.\<close>

definition create_thread :: "store \<Rightarrow> int \<Rightarrow> user_row \<Rightarrow> int \<Rightarrow> jsstring \<Rightarrow> thread_row option response \<times> store" where
  "create_thread st now user channelId title =
     (if length title < 1 then (Error 400 ''Invalid request.'', st)
      else
        (let (lastID, st1) = insert_thread st now channelId title (u_id user)
         in (Json (find (\<lambda>t. th_id t = lastID) (threads st1)), st1)))"

text \<open>
  The seeding at the end of \<open>initDb\<close>: a channel \<open>general\<close> when there is no channel, and
  a thread \<open>main\<close> of that channel, created by user 0, when it has none whose title is
  \<open>main\<close> in lower case. \<open>lower\<close> of SQLite folds the ASCII letters only. The statements
  that create the tables, and the migrations, do not change a store of this shape.
\<close>

definition sqlite_lower :: "jsstring \<Rightarrow> jsstring" where
  "sqlite_lower s = map (\<lambda>c. if 65 \<le> c \<and> c \<le> 90 then c + 32 else c) s"

definition initDb :: "store \<Rightarrow> int \<Rightarrow> store" where
  "initDb st now =
     (let st1 = (if channels st = []
                 then st\<lparr>channels := [\<lparr>c_id = channels_seq st + 1, c_name = js ''general'',
                                         c_created_at = now\<rparr>],
                         channels_seq := channels_seq st + 1\<rparr>
                 else st)
      in case find (\<lambda>c. c_name c = js ''general'') (channels st1) of
           None \<Rightarrow> st1
         | Some generalChannel \<Rightarrow>
             if filter (\<lambda>t. th_channel_id t = c_id generalChannel
                             \<and> sqlite_lower (th_title t) = js ''main'') (threads st1) = []
             then snd (insert_thread st1 now (c_id generalChannel) (js ''main'') 0)
             else st1)"

text \<open>The database before the first start of the server.\<close>

definition empty_store :: store where
  "empty_store = \<lparr>users = [], sessions = [], channels = [], channels_seq = 0, threads = [],
     threads_seq = 0, messages = [], messages_seq = 0, tasks = [], tasks_seq = 0\<rparr>"

section \<open>Messages\<close>

text \<open>
  The \<open>SELECT\<close> of a message joined with its author; the row is there only when the
  author is. The joined name and the reply count are not kept.
\<close>

definition select_message :: "store \<Rightarrow> int \<Rightarrow> message_row option" where
  "select_message st message_id =
     (case find (\<lambda>m. m_id m = message_id) (messages st) of
        None \<Rightarrow> None
      | Some m \<Rightarrow> if m_user_id m \<in> u_id ` set (users st) then Some m else None)"

definition insert_message :: "store \<Rightarrow> int \<Rightarrow> int \<Rightarrow> int \<Rightarrow> jsstring \<Rightarrow> int \<times> store" where
  "insert_message st now thread_id user_id content =
     (let lastID = messages_seq st + 1 in
      (lastID,
       st\<lparr>messages := messages st @
              [\<lparr>m_id = lastID, m_thread_id = thread_id, m_user_id = user_id,
                m_content = content, m_created_at = now\<rparr>],
          messages_seq := lastID\<rparr>))"

section \<open>Tasks\<close>

text \<open>
  \<open>INSERT OR IGNORE INTO tasks\<close>: the column \<open>message_id\<close> is \<open>UNIQUE\<close>, and a row that
  would break it is skipped. The id of the row is drawn before the constraint is checked,
  so the counter of the table moves on also when the row is skipped. The result is
  \<open>changes\<close> and the store.
\<close>

definition insert_or_ignore_task ::
  "store \<Rightarrow> int \<Rightarrow> int \<Rightarrow> int \<Rightarrow> int \<Rightarrow> int \<Rightarrow> jsstring \<Rightarrow> jsstring \<Rightarrow> nat \<times> store" where
  "insert_or_ignore_task st now message_id channel_id thread_id created_by title note =
     (if message_id \<in> t_message_id ` set (tasks st)
      then (0, st\<lparr>tasks_seq := tasks_seq st + 1\<rparr>)
      else
        (1, st\<lparr>tasks := tasks st @
                  [\<lparr>t_id = tasks_seq st + 1, t_message_id = message_id, t_channel_id = channel_id,
                    t_thread_id = thread_id, t_created_by = created_by, t_title = title,
                    t_note = note, t_status = Open, t_created_at = now, t_updated_at = now\<rparr>],
               tasks_seq := tasks_seq st + 1\<rparr>))"

text \<open>
  The plain \<open>INSERT INTO tasks\<close> of \<open>POST /tasks\<close>: the same row, but a conflict throws
  (\<open>None\<close>) and the statement is undone.
\<close>

definition insert_task ::
  "store \<Rightarrow> int \<Rightarrow> int \<Rightarrow> int \<Rightarrow> int \<Rightarrow> int \<Rightarrow> jsstring \<Rightarrow> jsstring \<Rightarrow> store option" where
  "insert_task st now message_id channel_id thread_id created_by title note =
     (case insert_or_ignore_task st now message_id channel_id thread_id created_by title note of
        (changes, st') \<Rightarrow> if changes = 0 then None else Some st')"

text \<open>\<open>DELETE FROM tasks WHERE message_id = ?\<close> and \<open>DELETE FROM tasks WHERE id = ?\<close>.\<close>

definition delete_tasks_of_message :: "store \<Rightarrow> int \<Rightarrow> store" where
  "delete_tasks_of_message st message_id =
     st\<lparr>tasks := filter (\<lambda>t. t_message_id t \<noteq> message_id) (tasks st)\<rparr>"

definition delete_task :: "store \<Rightarrow> int \<Rightarrow> store" where
  "delete_task st task_id = st\<lparr>tasks := filter (\<lambda>t. t_id t \<noteq> task_id) (tasks st)\<rparr>"

text \<open>
  \<open>UPDATE tasks SET ..., updated_at = CURRENT_TIMESTAMP WHERE id = ?\<close> of
  \<open>PATCH /tasks/:taskId\<close> and of the checklist toggle of a note: each of title, note and
  status is set when given.
\<close>

definition update_task ::
  "store \<Rightarrow> int \<Rightarrow> int \<Rightarrow> jsstring option \<Rightarrow> jsstring option \<Rightarrow> TaskStatus option \<Rightarrow> store" where
  "update_task st now task_id title note status =
     st\<lparr>tasks :=
          map (\<lambda>t. if t_id t = task_id
                    then t\<lparr>t_title := (case title of None \<Rightarrow> t_title t | Some x \<Rightarrow> x),
                           t_note := (case note of None \<Rightarrow> t_note t | Some x \<Rightarrow> x),
                           t_status := (case status of None \<Rightarrow> t_status t | Some x \<Rightarrow> x),
                           t_updated_at := now\<rparr>
                    else t)
              (tasks st)\<rparr>"

section \<open>Posting a message\<close>

record post_body =
  pb_content :: jsstring
  pb_createTask :: "bool option"
  pb_botMessage :: "jsstring option"

definition post_body_valid :: "post_body \<Rightarrow> bool" where
  "post_body_valid body =
     (1 \<le> length (pb_content body)
      \<and> (case pb_botMessage body of None \<Rightarrow> True | Some b \<Rightarrow> length b \<le> 300))"

text \<open>The content that \<open>POST /threads/:threadId/messages\<close> stores, from the parsed body.\<close>

definition contentForMessage :: "post_body \<Rightarrow> jsstring" where
  "contentForMessage body =
     (let rawContent = trim (pb_content body);
          hasFlag = hasTaskFlag rawContent;
          sanitizedContent = (if hasFlag then stripTaskFlag rawContent else rawContent)
      in if 0 < length sanitizedContent then sanitizedContent else rawContent)"

definition post_message ::
  "store \<Rightarrow> int \<Rightarrow> user_row \<Rightarrow> int \<Rightarrow> post_body \<Rightarrow> message_row option response \<times> store" where
  "post_message st now user threadId body =
     (if \<not> post_body_valid body then (Error 400 ''Invalid request.'', st)
      else
        (let rawContent = trim (pb_content body);
             shouldCreateTask = (pb_createTask body = Some True \<or> hasTaskFlag rawContent);
             taskPayload = parseTaskPayload
               (if pb_createTask body = Some True then contentForMessage body else rawContent);
             (lastID, st1) = insert_message st now threadId (u_id user) (contentForMessage body)
         in case select_message st1 lastID of
              None \<Rightarrow> (Json None, st1)
            | Some message \<Rightarrow>
                (case (if shouldCreateTask then fst taskPayload else None) of
                   None \<Rightarrow> (Json (Some message), st1)
                 | Some taskTitle \<Rightarrow>
                     (case find (\<lambda>t. th_id t = threadId) (threads st1) of
                        None \<Rightarrow> (Json (Some message), st1)
                      | Some threadInfo \<Rightarrow>
                          (Json (Some message),
                           snd (insert_or_ignore_task st1 now (m_id message)
                                  (th_channel_id threadInfo) threadId (u_id user)
                                  taskTitle (snd taskPayload)))))))"

section \<open>Toggling a checklist line of a message\<close>

definition toggle_message_checklist ::
  "store \<Rightarrow> int \<Rightarrow> int \<Rightarrow> bool \<Rightarrow> message_row response \<times> store" where
  "toggle_message_checklist st messageId ordinal checked =
     (if ordinal < 0 then (Error 400 ''Invalid request.'', st)
      else
        (case find (\<lambda>m. m_id m = messageId) (messages st) of
           None \<Rightarrow> (Error 404 ''Message not found.'', st)
         | Some existing \<Rightarrow>
             (let nextContent = applyChecklistToggle (m_content existing) ordinal checked in
              if nextContent = m_content existing then (Error 400 ''Checklist item not found.'', st)
              else
                (let st1 = st\<lparr>messages :=
                              map (\<lambda>m. if m_id m = messageId then m\<lparr>m_content := nextContent\<rparr> else m)
                                  (messages st)\<rparr>
                 in case select_message st1 messageId of
                      None \<Rightarrow> (Error 500 ''Failed to update message.'', st1)
                    | Some message \<Rightarrow> (Json message, st1)))))"

section \<open>Listing tasks\<close>

text \<open>
  \<open>Number(process.env.DONE_TASK_RETENTION_DAYS || 7)\<close>: the variable is unset, or set to
  a whole number of days.
\<close>

definition DONE_TASK_RETENTION_DAYS :: "int option \<Rightarrow> int" where
  "DONE_TASK_RETENTION_DAYS env = (case env of None \<Rightarrow> 7 | Some n \<Rightarrow> n)"

record task_query =
  q_status :: "string option"
  q_channelId :: "int option"
  q_threadId :: "int option"

definition parse_status :: "string option \<Rightarrow> TaskStatus option" where
  "parse_status q =
     (if q = Some ''done'' then Some Done
      else if q = Some ''open'' then Some Open
      else if q = Some ''doing'' then Some Doing
      else None)"

text \<open>The \<open>WHERE\<close> clause that \<open>GET /tasks\<close> builds. A filter id of 0 is falsy and adds nothing.\<close>

definition task_where :: "int option \<Rightarrow> int \<Rightarrow> task_query \<Rightarrow> task_row \<Rightarrow> bool" where
  "task_where env now q t =
     ((case parse_status (q_status q) of
         Some status \<Rightarrow>
           t_status t = status
           \<and> (if status = Done then now - days (DONE_TASK_RETENTION_DAYS env) \<le> t_updated_at t
              else True)
       | None \<Rightarrow>
           (t_status t \<noteq> Done \<or> now - days (DONE_TASK_RETENTION_DAYS env) \<le> t_updated_at t))
      \<and> (case q_channelId q of None \<Rightarrow> True
          | Some c \<Rightarrow> if c = 0 then True else t_channel_id t = c)
      \<and> (case q_threadId q of None \<Rightarrow> True
          | Some h \<Rightarrow> if h = 0 then True else t_thread_id t = h))"

text \<open>The three inner joins keep a task only when its creator, channel and thread exist.\<close>

definition task_joined :: "store \<Rightarrow> task_row \<Rightarrow> bool" where
  "task_joined st t =
     (t_created_by t \<in> u_id ` set (users st)
      \<and> t_channel_id t \<in> c_id ` set (channels st)
      \<and> t_thread_id t \<in> th_id ` set (threads st))"

definition list_tasks :: "int option \<Rightarrow> store \<Rightarrow> int \<Rightarrow> task_query \<Rightarrow> task_row list" where
  "list_tasks env st now q =
     take 200 (sort_key (\<lambda>t. - t_id t)
                 (filter (\<lambda>t. task_joined st t \<and> task_where env now q t) (tasks st)))"

section \<open>The task flag, as the specification words it\<close>

text \<open>
  The token \<open>:task\<close>, compared without regard to the case of its ASCII letters, as a
  separate word of the content: what precedes it is empty or ends with white space, and
  what follows it is empty or starts with white space.
\<close>

definition ascii_lower :: "nat \<Rightarrow> nat" where
  "ascii_lower c = (if 65 \<le> c \<and> c \<le> 90 then c + 32 else c)"

definition is_task_token :: "jsstring \<Rightarrow> bool" where
  "is_task_token tok = (map ascii_lower tok = js '':task'')"

definition standalone_task_token :: "jsstring \<Rightarrow> bool" where
  "standalone_task_token s =
     (\<exists>pre tok post. s = pre @ tok @ post \<and> is_task_token tok
        \<and> (pre = [] \<or> is_space (last pre)) \<and> (post = [] \<or> is_space (hd post)))"

text \<open>
  The stores that the statements on the table \<open>tasks\<close> lead to, from a table without
  rows. Every other statement leaves the table as it is.
\<close>

inductive task_reachable :: "store \<Rightarrow> bool" where
  no_tasks: "tasks st = [] \<Longrightarrow> task_reachable st"
| ins_or_ignore: "task_reachable st \<Longrightarrow>
     task_reachable (snd (insert_or_ignore_task st now m c h u title note))"
| ins: "task_reachable st \<Longrightarrow> insert_task st now m c h u title note = Some st' \<Longrightarrow>
     task_reachable st'"
| del_message: "task_reachable st \<Longrightarrow> task_reachable (delete_tasks_of_message st m)"
| del: "task_reachable st \<Longrightarrow> task_reachable (delete_task st i)"
| upd: "task_reachable st \<Longrightarrow> task_reachable (update_task st now i title' note' status)"
| other: "task_reachable st \<Longrightarrow> tasks st' = tasks st \<Longrightarrow> task_reachable st'"

text \<open>The task rows whose originating message is the given one.\<close>

definition tasks_of_message :: "store \<Rightarrow> int \<Rightarrow> task_row list" where
  "tasks_of_message st message_id = filter (\<lambda>t. t_message_id t = message_id) (tasks st)"

text \<open>
  The stores that the server reaches when threads are created for existing channels only:
  from the empty database by \<open>initDb\<close>, create-channel, create-thread for a channel of
  the store, and the commands that leave channels and threads as they are.
\<close>

inductive channels_reachable :: "store \<Rightarrow> bool" where
  fresh: "channels_reachable empty_store"
| init: "channels_reachable st \<Longrightarrow> channels_reachable (initDb st now)"
| channel: "channels_reachable st \<Longrightarrow> channels_reachable (snd (create_channel st now user name))"
| thread: "channels_reachable st \<Longrightarrow> channelId \<in> c_id ` set (channels st) \<Longrightarrow>
     channels_reachable (snd (create_thread st now user channelId title))"
| other: "channels_reachable st \<Longrightarrow> channels st' = channels st \<Longrightarrow>
     channels_seq st' = channels_seq st \<Longrightarrow> threads st' = threads st \<Longrightarrow>
     threads_seq st' = threads_seq st \<Longrightarrow> channels_reachable st'"

text \<open>No channel id, and no channel id of a thread, is above the counter of the channels.\<close>

definition ids_below_seq :: "store \<Rightarrow> bool" where
  "ids_below_seq st =
     (filter (\<lambda>c. channels_seq st < c_id c) (channels st) = []
      \<and> filter (\<lambda>t. channels_seq st < th_channel_id t) (threads st) = [])"

text \<open>The threads titled \<open>main\<close> of a channel.\<close>

definition main_threads_of :: "store \<Rightarrow> int \<Rightarrow> thread_row list" where
  "main_threads_of st channel_id =
     filter (\<lambda>t. th_channel_id t = channel_id \<and> th_title t = js ''main'') (threads st)"

section \<open>Example data\<close>

definition ann :: user_row where
  "ann = \<lparr>u_id = 1, u_name = js ''ann'', u_email = js ''ann@example.org''\<rparr>"

text \<open>The store right after \<open>initDb\<close> on an empty database, with one user signed up.\<close>

definition store0 :: store where
  "store0 = \<lparr>users = [ann], sessions = [],
     channels = [\<lparr>c_id = 1, c_name = js ''general'', c_created_at = 0\<rparr>], channels_seq = 1,
     threads = [\<lparr>th_id = 1, th_channel_id = 1, th_title = js ''main'', th_created_by = 0,
                 th_created_at = 0\<rparr>],
     threads_seq = 1, messages = [], messages_seq = 0, tasks = [], tasks_seq = 0\<rparr>"

definition blank_body :: post_body where
  "blank_body = \<lparr>pb_content = js '' '', pb_createTask = None, pb_botMessage = None\<rparr>"

text \<open>A task that was moved to done on day 10.\<close>

definition old_done_task :: task_row where
  "old_done_task = \<lparr>t_id = 1, t_message_id = 1, t_channel_id = 1, t_thread_id = 1, t_created_by = 1,
     t_title = js ''Ship release'', t_note = [], t_status = Done, t_created_at = 0,
     t_updated_at = days 10\<rparr>"

definition no_filter :: task_query where
  "no_filter = \<lparr>q_status = None, q_channelId = None, q_threadId = None\<rparr>"

definition ann_session :: session_row where
  "ann_session = \<lparr>s_id = js ''sid-ann'', s_user_id = 1, s_created_at = 0, s_expires_at = days 7,
     s_revoked_at = None\<rparr>"

definition bob_expired_session :: session_row where
  "bob_expired_session = \<lparr>s_id = js ''sid-bob'', s_user_id = 2, s_created_at = 0,
     s_expires_at = days 1, s_revoked_at = None\<rparr>"

definition ann_request :: request where
  "ann_request = \<lparr>query_sid = None, header_sid = Some (js ''sid-ann'')\<rparr>"

text \<open>The first store with a second thread \<open>main\<close> in the channel \<open>general\<close>.\<close>

definition two_main_store :: store where
  "two_main_store = snd (create_thread store0 50 ann 1 (js ''main''))"

definition fence_example :: jsstring where
  "fence_example = js ''- [ ] a\<newline>```\<newline>- [ ] fake\<newline>```\<newline>- [ ] b''"

definition two_backtick_example :: jsstring where
  "two_backtick_example = js ''``\<newline>- [ ] q\<newline>``''"

definition message_store :: "jsstring \<Rightarrow> store" where
  "message_store content =
     store0\<lparr>messages := [\<lparr>m_id = 1, m_thread_id = 1, m_user_id = 1, m_content = content,
                           m_created_at = 5\<rparr>],
            messages_seq := 1\<rparr>"

section \<open>Properties\<close>

lemmas flag_eval = hasTaskFlag_def stripTaskFlag_def match_at_def match_tail_def right_edge_def
  is_space_def trim_def trimStart_def trimEnd_def

subsection \<open>Listing tasks\<close>

text \<open>
  C1. The unfiltered listing keeps every task that is not done and every done task updated
  within the retention window, and the window is 14 days when none is configured. The
  code takes 7 days when the variable is unset: on day 20 a task done on day 10 is
  missing from the unfiltered listing, and it is listed once 14 days are configured.
\<close>

theorem list_tasks_default_window_is_7_days:
  "DONE_TASK_RETENTION_DAYS None = 7
   \<and> list_tasks None (store0\<lparr>tasks := [old_done_task], tasks_seq := 1\<rparr>) (days 20) no_filter = []
   \<and> list_tasks (Some 14) (store0\<lparr>tasks := [old_done_task], tasks_seq := 1\<rparr>) (days 20) no_filter
       = [old_done_task]"
  by (simp add: DONE_TASK_RETENTION_DAYS_def list_tasks_def task_where_def task_joined_def
      parse_status_def no_filter_def old_done_task_def store0_def ann_def days_def)

subsection \<open>The task flag\<close>

text \<open>
  C2. Detection on the stripped content is always false. Two flags separated by one
  space share that space: the first match consumes it, the second flag is then not
  preceded by white space at the point where the scan resumes, and it stays in the
  stripped content, where detection finds it.
\<close>

theorem stripTaskFlag_leaves_adjacent_flag:
  "stripTaskFlag (js '':task :task'') = js '':task''
   \<and> hasTaskFlag (stripTaskFlag (js '':task :task'')) = True"
  by (simp add: flag_eval)

text \<open>
  C3. The stored body of a valid post is never empty. A content of one space has length 1
  and passes validation; it is trimmed afterwards, and the empty string is stored.
\<close>

theorem post_message_blank_content_stored_empty:
  "post_body_valid blank_body
   \<and> contentForMessage blank_body = []
   \<and> map m_content (messages (snd (post_message store0 100 ann 1 blank_body))) = [[]]"
  by (simp add: blank_body_def post_body_valid_def contentForMessage_def post_message_def
      insert_message_def select_message_def store0_def ann_def parseTaskPayload_def flag_eval)

subsection \<open>Sessions\<close>

lemma getCurrentUser_sessions:
  "getSessionId req = Some sid \<Longrightarrow>
   sessions (snd (getCurrentUser st now req)) = filter (\<lambda>s. \<not> session_dead now s) (sessions st)"
  by (simp add: getCurrentUser_def Let_def)

lemma requireAuth_session_ids:
  "getSessionId req = Some sid \<Longrightarrow>
   map s_id (sessions (snd (requireAuth env st now req)))
     = map s_id (filter (\<lambda>s. \<not> session_dead now s) (sessions st))"
  by (auto simp: requireAuth_def getCurrentUser_def Let_def o_def split: option.splits prod.splits
      intro!: map_cong)

text \<open>
  C10. A request that carries a session id makes \<open>getCurrentUser\<close> delete every session
  row that is expired or revoked, whoever owns it, and keep the others; after
  \<open>requireAuth\<close> the rows left are those same live rows (the requester's own with a new
  expiry). So the sessions of other users do not stay unchanged.
\<close>

theorem session_validation_purges_dead_sessions:
  assumes "getSessionId req = Some sid"
  shows "sessions (snd (getCurrentUser st now req))
           = filter (\<lambda>s. \<not> (s_expires_at s \<le> now \<or> s_revoked_at s \<noteq> None)) (sessions st)
         \<and> map s_id (sessions (snd (requireAuth env st now req)))
           = map s_id (filter (\<lambda>s. \<not> (s_expires_at s \<le> now \<or> s_revoked_at s \<noteq> None))
                         (sessions st))"
  using getCurrentUser_sessions [OF assms, of st now] requireAuth_session_ids [OF assms, of env st now]
  by (simp add: session_dead_def)

theorem session_validation_purges_dead_sessions_witness:
  "getSessionId ann_request = Some (js ''sid-ann'')
   \<and> sessions (store0\<lparr>sessions := [ann_session, bob_expired_session]\<rparr>)
       = [ann_session, bob_expired_session]
   \<and> sessions (snd (getCurrentUser (store0\<lparr>sessions := [ann_session, bob_expired_session]\<rparr>)
                      (days 2) ann_request)) = [ann_session]"
proof -
  have h: "getSessionId ann_request = Some (js ''sid-ann'')"
    by (simp add: getSessionId_def ann_request_def)
  show ?thesis
    using h session_validation_purges_dead_sessions
      [OF h, of "store0\<lparr>sessions := [ann_session, bob_expired_session]\<rparr>" "days 2" None]
    by (simp add: ann_session_def bob_expired_session_def days_def)
qed

subsection \<open>Creating a channel\<close>

lemma ids_below_seq_iff:
  "ids_below_seq st = ((\<forall>c\<in>set (channels st). c_id c \<le> channels_seq st)
      \<and> (\<forall>t\<in>set (threads st). th_channel_id t \<le> channels_seq st))"
  by (auto simp: ids_below_seq_def filter_empty_conv not_less)

lemma ids_below_seq_initDb: "ids_below_seq st \<Longrightarrow> ids_below_seq (initDb st now)"
proof -
  assume i: "ids_below_seq st"
  define st1 where "st1 = (if channels st = []
                 then st\<lparr>channels := [\<lparr>c_id = channels_seq st + 1, c_name = js ''general'',
                                         c_created_at = now\<rparr>],
                         channels_seq := channels_seq st + 1\<rparr>
                 else st)"
  from i have i1: "ids_below_seq st1"
    by (auto simp: st1_def ids_below_seq_iff)
  have "ids_below_seq (snd (insert_thread st1 now (c_id g) (js ''main'') 0))"
    if "find (\<lambda>c. c_name c = js ''general'') (channels st1) = Some g" for g
  proof -
    from that have "g \<in> set (channels st1)"
      by (auto simp: find_Some_iff)
    with i1 show ?thesis
      by (auto simp: ids_below_seq_iff insert_thread_def Let_def)
  qed
  with i1 show ?thesis
    by (auto simp: initDb_def Let_def st1_def [symmetric] split: option.splits)
qed

lemma ids_below_seq_create_channel:
  "ids_below_seq st \<Longrightarrow> ids_below_seq (snd (create_channel st now user name))"
  by (auto simp: create_channel_def ids_below_seq_iff insert_thread_def Let_def)

lemma ids_below_seq_create_thread:
  "ids_below_seq st \<Longrightarrow> channelId \<in> c_id ` set (channels st) \<Longrightarrow>
   ids_below_seq (snd (create_thread st now user channelId title))"
  by (auto simp: create_thread_def ids_below_seq_iff insert_thread_def Let_def)

lemma channels_reachable_ids: "channels_reachable st \<Longrightarrow> ids_below_seq st"
proof (induction rule: channels_reachable.induct)
  case fresh
  then show ?case by (simp add: ids_below_seq_def empty_store_def)
next
  case (init st now)
  then show ?case by (simp add: ids_below_seq_initDb)
next
  case (channel st now user name)
  then show ?case by (simp add: ids_below_seq_create_channel)
next
  case (thread st channelId now user title)
  then show ?case by (simp add: ids_below_seq_create_thread)
next
  case (other st st')
  then show ?case by (simp add: ids_below_seq_def)
qed

lemma find_snoc_new:
  "filter P xs = [] \<Longrightarrow> P x \<Longrightarrow> find P (xs @ [x]) = Some x"
  by (induction xs) (auto split: if_splits)

text \<open>
  C6. In every store reached with threads created for existing channels only, a successful
  create-channel answers with the new channel, and right after it exactly one thread
  belongs to that channel: it is titled \<open>main\<close>, its creator is the requesting user, and
  the command itself inserted it.
\<close>

theorem create_channel_has_one_main_thread:
  assumes "channels_reachable st" and "create_channel st now user name = (Json r, st')"
  shows "\<exists>channel t. r = Some channel
     \<and> channel = \<lparr>c_id = channels_seq st + 1, c_name = name, c_created_at = now\<rparr>
     \<and> channels st' = channels st @ [channel]
     \<and> c_id channel \<notin> c_id ` set (channels st)
     \<and> threads st' = threads st @ [t]
     \<and> filter (\<lambda>t. th_channel_id t = c_id channel) (threads st') = [t]
     \<and> main_threads_of st' (c_id channel) = [t]
     \<and> th_title t = js ''main'' \<and> th_created_by t = u_id user"
proof -
  let ?id = "channels_seq st + 1"
  let ?new = "\<lparr>c_id = ?id, c_name = name, c_created_at = now\<rparr>"
  let ?t = "\<lparr>th_id = threads_seq st + 1, th_channel_id = ?id, th_title = js ''main'',
             th_created_by = u_id user, th_created_at = now\<rparr>"
  from assms(1) have i: "ids_below_seq st" by (rule channels_reachable_ids)
  then have nc: "filter (\<lambda>c. c_id c = ?id) (channels st) = []"
    and nt: "filter (\<lambda>t. th_channel_id t = ?id) (threads st) = []"
    by (auto simp: ids_below_seq_iff filter_empty_conv)
  from nc have f: "find (\<lambda>c. c_id c = ?id) (channels st @ [?new]) = Some ?new"
    by (rule find_snoc_new) simp
  from nc have notin: "?id \<notin> c_id ` set (channels st)"
    by (auto simp: filter_empty_conv)
  from nt have nm: "filter (\<lambda>t. th_channel_id t = ?id \<and> th_title t = js ''main'') (threads st) = []"
    by (auto simp: filter_empty_conv)
  from assms(2) f have "r = Some ?new" and "channels st' = channels st @ [?new]"
    and "threads st' = threads st @ [?t]"
    by (auto simp: create_channel_def insert_thread_def Let_def split: if_splits)
  with notin nt nm show ?thesis
    by (simp add: main_threads_of_def)
qed

lemma store0_reachable: "channels_reachable store0"
proof -
  have "channels_reachable (empty_store\<lparr>users := [ann]\<rparr>)"
    by (rule channels_reachable.other [OF channels_reachable.fresh]) simp_all
  then have "channels_reachable (initDb (empty_store\<lparr>users := [ann]\<rparr>) 0)"
    by (rule channels_reachable.init)
  moreover have "initDb (empty_store\<lparr>users := [ann]\<rparr>) 0 = store0"
    by (simp add: initDb_def empty_store_def store0_def insert_thread_def Let_def)
  ultimately show ?thesis by simp
qed

theorem create_channel_has_one_main_thread_witness:
  "channels_reachable two_main_store
   \<and> fst (create_channel two_main_store 60 ann (js ''dev''))
       = Json (Some \<lparr>c_id = 2, c_name = js ''dev'', c_created_at = 60\<rparr>)
   \<and> main_threads_of (snd (create_channel two_main_store 60 ann (js ''dev''))) 2
       = [\<lparr>th_id = 3, th_channel_id = 2, th_title = js ''main'', th_created_by = 1,
           th_created_at = 60\<rparr>]"
proof -
  have r: "channels_reachable two_main_store"
    unfolding two_main_store_def
    by (rule channels_reachable.thread [OF store0_reachable]) (simp add: store0_def)
  obtain x st' where h: "create_channel two_main_store 60 ann (js ''dev'') = (Json x, st')"
    by (simp add: create_channel_def insert_thread_def two_main_store_def create_thread_def
        store0_def ann_def)
  have s: "channels_seq two_main_store = 1" "threads_seq two_main_store = 2"
    by (simp_all add: two_main_store_def create_thread_def insert_thread_def store0_def)
  from create_channel_has_one_main_thread [OF r h] obtain channel t where
    "x = Some channel" "channel = \<lparr>c_id = 2, c_name = js ''dev'', c_created_at = 60\<rparr>"
    "main_threads_of st' (c_id channel) = [t]" "threads st' = threads two_main_store @ [t]"
    by (auto simp: s)
  moreover have "threads st' = threads two_main_store
      @ [\<lparr>th_id = 3, th_channel_id = 2, th_title = js ''main'', th_created_by = 1, th_created_at = 60\<rparr>]"
    using h by (auto simp: create_channel_def insert_thread_def two_main_store_def create_thread_def
        store0_def ann_def)
  ultimately show ?thesis using r h by auto
qed


text \<open>
  Create-thread does not look its channel up. A thread titled \<open>main\<close> that is created
  for the id of a channel that does not exist yet stays in the table, and the channel
  that later receives the id has two such threads; the stores above exclude this.
\<close>

lemma create_thread_for_missing_channel:
  "fst (create_channel (snd (create_thread store0 50 ann 2 (js ''main''))) 60 ann (js ''dev''))
     = Json (Some \<lparr>c_id = 2, c_name = js ''dev'', c_created_at = 60\<rparr>)
   \<and> length (main_threads_of
               (snd (create_channel (snd (create_thread store0 50 ann 2 (js ''main'')))
                       60 ann (js ''dev'')))
               2) = 2"
  by (simp add: create_channel_def create_thread_def insert_thread_def main_threads_of_def
      store0_def ann_def)

subsection \<open>One task for a message\<close>

lemma insert_or_ignore_distinct:
  "distinct (map t_message_id (tasks st)) \<Longrightarrow>
   distinct (map t_message_id (tasks (snd (insert_or_ignore_task st now m c h u title note))))"
  by (simp add: insert_or_ignore_task_def)

lemma update_task_message_ids:
  "map t_message_id (tasks (update_task st now i title note status)) = map t_message_id (tasks st)"
  by (simp add: update_task_def o_def cong: map_cong)

lemma task_reachable_distinct: "task_reachable st \<Longrightarrow> distinct (map t_message_id (tasks st))"
proof (induction rule: task_reachable.induct)
  case (no_tasks st)
  then show ?case by simp
next
  case (ins_or_ignore st now m c h u ttl nt)
  then show ?case by (simp add: insert_or_ignore_distinct)
next
  case (ins st now m c h u ttl nt st')
  from ins.hyps(2) have "st' = snd (insert_or_ignore_task st now m c h u ttl nt)"
    by (auto simp: insert_task_def split: prod.splits if_splits)
  with ins.IH show ?case by (simp add: insert_or_ignore_distinct)
next
  case (del_message st m)
  then show ?case by (simp add: delete_tasks_of_message_def distinct_map_filter)
next
  case (del st i)
  then show ?case by (simp add: delete_task_def distinct_map_filter)
next
  case (upd st now i ttl nt status)
  then show ?case by (simp add: update_task_message_ids)
next
  case (other st st')
  then show ?case by simp
qed

lemma distinct_filter_le_1:
  "distinct (map f xs) \<Longrightarrow> length (filter (\<lambda>x. f x = k) xs) \<le> 1"
proof (induction xs)
  case Nil
  then show ?case by simp
next
  case (Cons x xs)
  show ?case
  proof (cases "f x = k")
    case True
    with Cons.prems have "\<forall>y\<in>set xs. f y \<noteq> k" by (auto simp: image_iff)
    then have "filter (\<lambda>x. f x = k) xs = []" by (simp add: filter_empty_conv)
    with True show ?thesis by simp
  next
    case False
    with Cons show ?thesis by simp
  qed
qed

lemma insert_or_ignore_twice:
  "fst (insert_or_ignore_task (snd (insert_or_ignore_task st now m c h u title note))
          now' m c' h' u' title' note') = 0
   \<and> tasks (snd (insert_or_ignore_task (snd (insert_or_ignore_task st now m c h u title note))
                 now' m c' h' u' title' note'))
     = tasks (snd (insert_or_ignore_task st now m c h u title note))"
  by (simp add: insert_or_ignore_task_def)

lemma post_message_task_reachable:
  "task_reachable st \<Longrightarrow> task_reachable (snd (post_message st now user threadId body))"
proof -
  assume r: "task_reachable st"
  obtain lastID st1 where i: "insert_message st now threadId (u_id user) (contentForMessage body) = (lastID, st1)"
    by (cases "insert_message st now threadId (u_id user) (contentForMessage body)")
  then have "tasks st1 = tasks st" by (auto simp: insert_message_def Let_def)
  with r have r1: "task_reachable st1" by (rule task_reachable.other)
  from r r1 i show ?thesis
    by (auto simp: post_message_def Let_def split: option.splits intro: task_reachable.ins_or_ignore)
qed

text \<open>
  C5. In every store that the task statements lead to, a message is the originating
  message of at most one task row; after task extraction for a message there is exactly
  one, and extracting again for the same message is a no-op on the task rows: \<open>changes\<close>
  is 0 and the rows are the same.
\<close>

theorem one_task_per_message:
  assumes "task_reachable st"
  shows "length (tasks_of_message st message_id) \<le> 1
     \<and> length (tasks_of_message (snd (insert_or_ignore_task st now message_id c h u title note))
                 message_id) = 1
     \<and> fst (insert_or_ignore_task (snd (insert_or_ignore_task st now message_id c h u title note))
               now' message_id c' h' u' title' note') = 0
     \<and> tasks (snd (insert_or_ignore_task
                     (snd (insert_or_ignore_task st now message_id c h u title note))
                     now' message_id c' h' u' title' note'))
        = tasks (snd (insert_or_ignore_task st now message_id c h u title note))"
proof -
  let ?st1 = "snd (insert_or_ignore_task st now message_id c h u title note)"
  have d: "distinct (map t_message_id (tasks st))"
    using assms by (rule task_reachable_distinct)
  then have a: "length (tasks_of_message st message_id) \<le> 1"
    unfolding tasks_of_message_def by (rule distinct_filter_le_1)
  have "task_reachable ?st1" using assms by (rule task_reachable.ins_or_ignore)
  then have "distinct (map t_message_id (tasks ?st1))" by (rule task_reachable_distinct)
  then have b: "length (tasks_of_message ?st1 message_id) \<le> 1"
    unfolding tasks_of_message_def by (rule distinct_filter_le_1)
  have "message_id \<in> t_message_id ` set (tasks ?st1)"
    by (simp add: insert_or_ignore_task_def)
  then have "tasks_of_message ?st1 message_id \<noteq> []"
    by (auto simp: tasks_of_message_def filter_empty_conv)
  with b have c: "length (tasks_of_message ?st1 message_id) = 1"
    by (cases "tasks_of_message ?st1 message_id") auto
  from a c insert_or_ignore_twice [of st now message_id c h u title "note" now' c' h' u' title' note']
  show ?thesis by blast
qed

theorem one_task_per_message_witness:
  "task_reachable store0
   \<and> length (tasks_of_message store0 1) \<le> 1
   \<and> fst (insert_or_ignore_task
            (snd (insert_or_ignore_task store0 10 1 1 1 1 (js ''Ship release'') []))
            20 1 1 1 1 (js ''Ship release'') []) = 0
   \<and> tasks (snd (insert_or_ignore_task
                  (snd (insert_or_ignore_task store0 10 1 1 1 1 (js ''Ship release'') []))
                  20 1 1 1 1 (js ''Ship release'') []))
     = [\<lparr>t_id = 1, t_message_id = 1, t_channel_id = 1, t_thread_id = 1, t_created_by = 1,
         t_title = js ''Ship release'', t_note = [], t_status = Open, t_created_at = 10,
         t_updated_at = 10\<rparr>]
   \<and> tasks_seq (snd (insert_or_ignore_task
                      (snd (insert_or_ignore_task store0 10 1 1 1 1 (js ''Ship release'') []))
                      20 1 1 1 1 (js ''Ship release'') [])) = 2"
proof -
  have r: "task_reachable store0"
    by (rule task_reachable.no_tasks) (simp add: store0_def)
  from one_task_per_message [OF r, of 1 10 1 1 1 "js ''Ship release''" "[]" 20 1 1 1 "js ''Ship release''" "[]"]
  have "length (tasks_of_message store0 1) \<le> 1"
    and "fst (insert_or_ignore_task
            (snd (insert_or_ignore_task store0 10 1 1 1 1 (js ''Ship release'') []))
            20 1 1 1 1 (js ''Ship release'') []) = 0"
    by simp_all
  with r show ?thesis
    by (simp add: insert_or_ignore_task_def store0_def)
qed

subsection \<open>Checklist toggle\<close>

lemma split_nl_not_Nil: "split_nl s \<noteq> []"
  by (induction s) (auto split: list.splits)

lemma join_nl_Cons_Cons: "ls \<noteq> [] \<Longrightarrow> join_nl (l # ls) = l @ 10 # join_nl ls"
  by (cases ls) auto

lemma join_split_nl: "join_nl (split_nl s) = s"
proof (induction s)
  case Nil
  then show ?case by simp
next
  case (Cons c r)
  obtain l ls where s: "split_nl r = l # ls"
    using split_nl_not_Nil [of r] by (cases "split_nl r") auto
  show ?case
  proof (cases "c = 10")
    case True
    with Cons s show ?thesis by simp
  next
    case False
    have "join_nl ((c # l) # ls) = c # join_nl (l # ls)"
      by (cases ls) auto
    with False Cons s show ?thesis by simp
  qed
qed

lemma toggle_lines_seen:
  "fst (snd (toggle_lines ordinal checked ls seen updated)) = seen + length (filter is_checklist ls)"
  by (induction ls arbitrary: seen updated) (auto simp: split_beta)

lemma toggle_lines_updated:
  "snd (snd (toggle_lines ordinal checked ls seen updated))
     = (updated \<or> (int seen \<le> ordinal \<and> ordinal < int (seen + length (filter is_checklist ls))))"
  by (induction ls arbitrary: seen updated) (auto simp: split_beta)

lemma toggle_lines_out:
  "(\<And>k. k < length (filter is_checklist ls) \<Longrightarrow> int (seen + k) = ordinal \<Longrightarrow>
          rewrite_line checked (filter is_checklist ls ! k) = filter is_checklist ls ! k) \<Longrightarrow>
   fst (toggle_lines ordinal checked ls seen updated) = ls"
proof (induction ls arbitrary: seen updated)
  case Nil
  then show ?case by simp
next
  case (Cons l ls)
  show ?case
  proof (cases "is_checklist l")
    case False
    with Cons.prems have "fst (toggle_lines ordinal checked ls seen updated) = ls"
      by (intro Cons.IH) simp_all
    with False show ?thesis by (simp add: split_beta)
  next
    case True
    have rest: "fst (toggle_lines ordinal checked ls (seen + 1) u) = ls" for u
    proof (rule Cons.IH)
      fix k
      assume "k < length (filter is_checklist ls)" "int (seen + 1 + k) = ordinal"
      with Cons.prems [of "Suc k"] True
      show "rewrite_line checked (filter is_checklist ls ! k) = filter is_checklist ls ! k"
        by simp
    qed
    have "int seen = ordinal \<Longrightarrow> rewrite_line checked l = l"
      using Cons.prems [of 0] True by simp
    with True rest [of True] rest [of updated] show ?thesis
      by (simp add: split_beta)
  qed
qed


lemma replaceInPlain_seen:
  "fst (snd (replaceInPlain ordinal checked plain seen updated))
     = seen + length (filter is_checklist (split_nl plain))"
  by (simp add: replaceInPlain_def split_beta toggle_lines_seen)

lemma replaceInPlain_updated:
  "snd (snd (replaceInPlain ordinal checked plain seen updated))
     = (updated \<or> (int seen \<le> ordinal
          \<and> ordinal < int (seen + length (filter is_checklist (split_nl plain)))))"
  by (simp add: replaceInPlain_def split_beta toggle_lines_updated)

lemma replaceInPlain_out:
  assumes "\<And>k. k < length (filter is_checklist (split_nl plain)) \<Longrightarrow> int (seen + k) = ordinal \<Longrightarrow>
          rewrite_line checked (filter is_checklist (split_nl plain) ! k)
            = filter is_checklist (split_nl plain) ! k"
  shows "fst (replaceInPlain ordinal checked plain seen updated) = plain"
proof -
  have "fst (toggle_lines ordinal checked (split_nl plain) seen updated) = split_nl plain"
    using assms by (rule toggle_lines_out)
  then show ?thesis
    by (simp add: replaceInPlain_def split_beta join_split_nl)
qed


declare scan_fences.simps [simp del] plain_segments.simps [simp del]

lemma checklist_lines_are_checklist: "l \<in> set (checklist_lines s) \<Longrightarrow> is_checklist l"
  by (auto simp: checklist_lines_def)

lemma slice_three: "take i r @ take n (drop i r) @ drop (i + n) r = r"
proof -
  have "take n (drop i r) @ drop (i + n) r = drop i r"
    by (simp add: add.commute [of i n] flip: drop_drop)
  then show ?thesis by simp
qed

lemma scan_fences_spec:
  "fst (snd (scan_fences ordinal checked rest seen updated)) = seen + length (checklist_lines rest)
   \<and> snd (snd (scan_fences ordinal checked rest seen updated))
       = (updated \<or> (int seen \<le> ordinal \<and> ordinal < int (seen + length (checklist_lines rest))))
   \<and> ((\<forall>k < length (checklist_lines rest). int (seen + k) = ordinal \<longrightarrow>
          rewrite_line checked (checklist_lines rest ! k) = checklist_lines rest ! k)
        \<longrightarrow> fst (scan_fences ordinal checked rest seen updated) = rest)"
proof (induction ordinal checked rest seen updated rule: scan_fences.induct)
  case (1 ordinal checked rest seen updated)
  show ?case
  proof (cases "fence_exec rest")
    case None
    then have cl: "checklist_lines rest = filter is_checklist (split_nl rest)"
      by (simp add: checklist_lines_def plain_segments.simps [of rest])
    from None have sc: "scan_fences ordinal checked rest seen updated
        = replaceInPlain ordinal checked rest seen updated"
      by (simp add: scan_fences.simps [of _ _ rest])
    show ?thesis
      unfolding sc cl
      by (intro conjI impI replaceInPlain_seen replaceInPlain_updated replaceInPlain_out) simp
  next
    case (Some p)
    obtain i n where p: "p = (i, n)" by (cases p)
    define A where "A = filter is_checklist (split_nl (take i rest))"
    define r1 where "r1 = replaceInPlain ordinal checked (take i rest) seen updated"
    define seen1 where "seen1 = fst (snd r1)"
    define upd1 where "upd1 = snd (snd r1)"
    let ?rest' = "drop (i + n) rest"
    let ?B = "checklist_lines ?rest'"
    let ?r2 = "scan_fences ordinal checked ?rest' seen1 upd1"
    have seen1: "seen1 = seen + length A"
      by (simp add: seen1_def r1_def A_def replaceInPlain_seen)
    have upd1: "upd1 = (updated \<or> (int seen \<le> ordinal \<and> ordinal < int (seen + length A)))"
      by (simp add: upd1_def r1_def A_def replaceInPlain_updated)
    have cl: "checklist_lines rest = A @ ?B"
      using Some p
      by (simp add: checklist_lines_def plain_segments.simps [of rest] A_def)
    have sc: "scan_fences ordinal checked rest seen updated
        = (fst r1 @ take n (drop i rest) @ fst ?r2, snd ?r2)"
      using Some p
      by (simp add: scan_fences.simps [of _ _ rest] split_beta r1_def seen1_def upd1_def)
    have e2: "(i, n) = p" using p by simp
    have e3: "(fst r1, snd r1) = replaceInPlain ordinal checked (take i rest) seen updated"
      by (simp add: r1_def)
    have e4: "(seen1, upd1) = snd r1"
      by (simp add: seen1_def upd1_def)
    note IH = "1.IH" [OF Some e2 e3 e4]
    have a: "fst (snd (scan_fences ordinal checked rest seen updated))
        = seen + length (checklist_lines rest)"
      using IH by (simp add: sc cl seen1)
    have b: "snd (snd (scan_fences ordinal checked rest seen updated))
        = (updated \<or> (int seen \<le> ordinal \<and> ordinal < int (seen + length (checklist_lines rest))))"
    proof -
      from IH have "snd (snd ?r2)
          = (upd1 \<or> (int seen1 \<le> ordinal \<and> ordinal < int (seen1 + length ?B)))"
        by blast
      then show ?thesis
        unfolding sc cl upd1 seen1 by auto
    qed
    have c: "fst (scan_fences ordinal checked rest seen updated) = rest"
      if h: "\<forall>k < length (checklist_lines rest). int (seen + k) = ordinal \<longrightarrow>
          rewrite_line checked (checklist_lines rest ! k) = checklist_lines rest ! k"
    proof -
      have "fst r1 = take i rest"
        unfolding r1_def
      proof (rule replaceInPlain_out)
        fix k
        assume "k < length (filter is_checklist (split_nl (take i rest)))" "int (seen + k) = ordinal"
        with h [rule_format, of k]
        show "rewrite_line checked (filter is_checklist (split_nl (take i rest)) ! k)
           = filter is_checklist (split_nl (take i rest)) ! k"
          by (simp add: cl nth_append flip: A_def)
      qed
      moreover have "fst ?r2 = ?rest'"
      proof -
        have "rewrite_line checked (?B ! k) = ?B ! k"
          if "k < length ?B" "int (seen1 + k) = ordinal" for k
          using h [rule_format, of "length A + k"] that
          by (simp add: cl nth_append seen1 add.assoc)
        with IH show ?thesis by blast
      qed
      ultimately show ?thesis
        by (simp add: sc slice_three)
    qed
    from a b c show ?thesis by blast
  qed
qed


lemmas checklist_eval = applyChecklistToggle_def scan_fences.simps plain_segments.simps
  checklist_lines_def fence_exec_def replaceInPlain_def rewrite_line_def

lemma applyChecklistToggle_unaddressed:
  assumes "\<not> (0 \<le> ordinal \<and> ordinal < int (length (checklist_lines content)))"
  shows "applyChecklistToggle content ordinal checked = content"
proof (cases "ordinal < 0")
  case True
  then show ?thesis by (simp add: applyChecklistToggle_def)
next
  case False
  with assms have "\<not> snd (snd (scan_fences ordinal checked content 0 False))"
    using scan_fences_spec [of ordinal checked content 0 False] by simp
  then show ?thesis by (simp add: applyChecklistToggle_def split_beta)
qed

lemma toggle_message_checklist_same:
  assumes "applyChecklistToggle content ordinal checked = content"
    and "0 \<le> ordinal"
    and "find (\<lambda>m. m_id m = messageId) (messages st) = Some existing"
    and "m_content existing = content"
  shows "toggle_message_checklist st messageId ordinal checked
           = (Error 400 ''Checklist item not found.'', st)"
  using assms by (simp add: toggle_message_checklist_def)

text \<open>
  C8. When the ordinal addresses no checklist line outside fences (it is negative, or not
  below the number of such lines), \<open>applyChecklistToggle\<close> returns its input; the
  command on a message with that content and a valid ordinal then answers status 400,
  \<open>Checklist item not found.\<close>, and the store is unchanged.
\<close>

theorem toggle_missing_ordinal_is_rejected:
  assumes "\<not> (0 \<le> ordinal \<and> ordinal < int (length (checklist_lines content)))"
  shows "applyChecklistToggle content ordinal checked = content
     \<and> (0 \<le> ordinal \<and> find (\<lambda>m. m_id m = messageId) (messages st) = Some existing
          \<and> m_content existing = content
        \<longrightarrow> toggle_message_checklist st messageId ordinal checked
              = (Error 400 ''Checklist item not found.'', st))"
  using applyChecklistToggle_unaddressed [OF assms] toggle_message_checklist_same
  by blast

theorem toggle_missing_ordinal_is_rejected_witness:
  "\<not> (0 \<le> (2::int) \<and> (2::int) < int (length (checklist_lines fence_example)))
   \<and> applyChecklistToggle fence_example 2 True = fence_example
   \<and> toggle_message_checklist (message_store fence_example) 1 2 True
       = (Error 400 ''Checklist item not found.'', message_store fence_example)"
proof -
  have h: "\<not> (0 \<le> (2::int) \<and> (2::int) < int (length (checklist_lines fence_example)))"
    by (simp add: fence_example_def checklist_eval)
  have f: "find (\<lambda>m. m_id m = 1) (messages (message_store fence_example))
      = Some \<lparr>m_id = 1, m_thread_id = 1, m_user_id = 1, m_content = fence_example, m_created_at = 5\<rparr>"
    by (simp add: message_store_def)
  from toggle_missing_ordinal_is_rejected [OF h, of True 1 "message_store fence_example"
      "\<lparr>m_id = 1, m_thread_id = 1, m_user_id = 1, m_content = fence_example, m_created_at = 5\<rparr>"] f h
  show ?thesis by simp
qed

lemma rewrite_line_same:
  "is_checklist l \<Longrightarrow> l ! 3 = (if checked then 120 else 32) \<Longrightarrow> rewrite_line checked l = l"
  by (cases l rule: is_checklist.cases) (auto simp: rewrite_line_def)

lemma applyChecklistToggle_same_state:
  assumes "0 \<le> ordinal" and "nat ordinal < length (checklist_lines content)"
    and "checklist_lines content ! nat ordinal ! 3 = (if checked then 120 else 32)"
  shows "applyChecklistToggle content ordinal checked = content"
proof -
  have "rewrite_line checked (checklist_lines content ! k) = checklist_lines content ! k"
    if "k < length (checklist_lines content)" "int (0 + k) = ordinal" for k
  proof -
    from that have k: "k = nat ordinal" by simp
    from that have "is_checklist (checklist_lines content ! k)"
      using checklist_lines_are_checklist [of "checklist_lines content ! k" content] by simp
    with assms k show ?thesis by (simp add: rewrite_line_same)
  qed
  then have "fst (scan_fences ordinal checked content 0 False) = content"
    using scan_fences_spec [of ordinal checked content 0 False] by blast
  then show ?thesis by (simp add: applyChecklistToggle_def split_beta)
qed

text \<open>
  C9, as stated: toggling an addressed line to the checked state it already has returns
  the input, and the command is rejected. A line checked with an upper-case \<open>X\<close> that is
  toggled to checked is rewritten with a lower-case \<open>x\<close>: the output differs, the command
  succeeds and the new content is stored.
\<close>

theorem toggle_uppercase_checked_is_accepted:
  "checklist_lines (js ''- [X] a'') = [js ''- [X] a'']
   \<and> applyChecklistToggle (js ''- [X] a'') 0 True = js ''- [x] a''
   \<and> fst (toggle_message_checklist (message_store (js ''- [X] a'')) 1 0 True)
       = Json \<lparr>m_id = 1, m_thread_id = 1, m_user_id = 1, m_content = js ''- [x] a'', m_created_at = 5\<rparr>
   \<and> map m_content (messages (snd (toggle_message_checklist (message_store (js ''- [X] a'')) 1 0 True)))
       = [js ''- [x] a'']"
  by (simp add: toggle_message_checklist_def message_store_def select_message_def store0_def ann_def
      Let_def checklist_eval)

text \<open>
  C9, amended: when the bracket of the addressed line already holds the character that
  the toggle writes (a space for unchecked, a lower-case \<open>x\<close> for checked), the output
  equals the input, and the command answers status 400, \<open>Checklist item not found.\<close>,
  with the store unchanged, although the ordinal exists.
\<close>

theorem toggle_to_same_marker_is_rejected:
  assumes "0 \<le> ordinal" and "nat ordinal < length (checklist_lines content)"
    and "checklist_lines content ! nat ordinal ! 3 = (if checked then 120 else 32)"
  shows "applyChecklistToggle content ordinal checked = content
     \<and> (find (\<lambda>m. m_id m = messageId) (messages st) = Some existing \<and> m_content existing = content
        \<longrightarrow> toggle_message_checklist st messageId ordinal checked
              = (Error 400 ''Checklist item not found.'', st))"
  using applyChecklistToggle_same_state [OF assms] toggle_message_checklist_same [OF _ assms(1)]
  by blast

theorem toggle_to_same_marker_is_rejected_witness:
  "(0::int) \<le> 1 \<and> nat 1 < length (checklist_lines fence_example)
   \<and> checklist_lines fence_example ! nat 1 ! 3 = 32
   \<and> applyChecklistToggle fence_example 1 False = fence_example
   \<and> toggle_message_checklist (message_store fence_example) 1 1 False
       = (Error 400 ''Checklist item not found.'', message_store fence_example)"
proof -
  have cl: "checklist_lines fence_example = [js ''- [ ] a'', js ''- [ ] b'']"
    by (simp add: fence_example_def checklist_eval)
  have h1: "(0::int) \<le> 1" by simp
  have h2: "nat 1 < length (checklist_lines fence_example)" by (simp add: cl)
  have h3: "checklist_lines fence_example ! nat 1 ! 3 = (if False then 120 else 32)"
    by (simp add: cl)
  have f: "find (\<lambda>m. m_id m = 1) (messages (message_store fence_example))
      = Some \<lparr>m_id = 1, m_thread_id = 1, m_user_id = 1, m_content = fence_example, m_created_at = 5\<rparr>"
    by (simp add: message_store_def)
  from toggle_to_same_marker_is_rejected [OF h1 h2 h3, of 1 "message_store fence_example"
      "\<lparr>m_id = 1, m_thread_id = 1, m_user_id = 1, m_content = fence_example, m_created_at = 5\<rparr>"]
    f h2 h3
  show ?thesis by simp
qed


subsection \<open>Detection of the task flag\<close>

lemma is_task_token_length: "is_task_token tok \<Longrightarrow> length tok = 5"
proof -
  assume "is_task_token tok"
  then have "length (map ascii_lower tok) = length (js '':task'')"
    by (simp only: is_task_token_def)
  then show ?thesis by simp
qed

lemma ascii_lower_colon: "(ascii_lower c = 58) = (c = 58)"
  by (auto simp: ascii_lower_def)

lemma ascii_lower_t: "(ascii_lower c = 116) = (c = 116 \<or> c = 84)"
  by (auto simp: ascii_lower_def)

lemma ascii_lower_a: "(ascii_lower c = 97) = (c = 97 \<or> c = 65)"
  by (auto simp: ascii_lower_def)

lemma ascii_lower_s: "(ascii_lower c = 115) = (c = 115 \<or> c = 83)"
  by (auto simp: ascii_lower_def)

lemma ascii_lower_k: "(ascii_lower c = 107) = (c = 107 \<or> c = 75)"
  by (auto simp: ascii_lower_def)

lemma lit_task_take5: "lit_task s = (5 \<le> length s \<and> is_task_token (take 5 s))"
proof (cases s rule: lit_task.cases)
  case (1 c0 c1 c2 c3 c4 r)
  then show ?thesis
    by (simp add: is_task_token_def ascii_lower_colon ascii_lower_t ascii_lower_a ascii_lower_s
        ascii_lower_k)
qed simp_all

lemma is_task_token_no_space: "is_task_token tok \<Longrightarrow> c \<in> set tok \<Longrightarrow> \<not> is_space c"
proof -
  assume t: "is_task_token tok" and c: "c \<in> set tok"
  from c have "ascii_lower c \<in> set (map ascii_lower tok)" by simp
  with t have "ascii_lower c \<in> {58, 116, 97, 115, 107}"
    by (simp add: is_task_token_def)
  then show ?thesis
    by (auto simp: ascii_lower_def is_space_def split: if_splits)
qed

lemma right_edge_iff: "(\<exists>n. right_edge t = Some n) = (t = [] \<or> is_space (hd t))"
  by (cases t) (auto simp: right_edge_def)

lemma match_tail_iff:
  "(\<exists>k. match_tail r = Some k)
     = (\<exists>tok post. r = tok @ post \<and> is_task_token tok \<and> (post = [] \<or> is_space (hd post)))"
proof
  assume "\<exists>k. match_tail r = Some k"
  then have l: "lit_task r" and e: "\<exists>n. right_edge (drop 5 r) = Some n"
    by (auto simp: match_tail_def split: if_splits)
  from l have "is_task_token (take 5 r)" by (simp add: lit_task_take5)
  moreover have "r = take 5 r @ drop 5 r" by simp
  moreover from e have "drop 5 r = [] \<or> is_space (hd (drop 5 r))" by (simp only: right_edge_iff)
  ultimately show "\<exists>tok post. r = tok @ post \<and> is_task_token tok \<and> (post = [] \<or> is_space (hd post))"
    by blast
next
  assume "\<exists>tok post. r = tok @ post \<and> is_task_token tok \<and> (post = [] \<or> is_space (hd post))"
  then obtain tok post where r: "r = tok @ post" and t: "is_task_token tok"
    and p: "post = [] \<or> is_space (hd post)" by blast
  from t have n: "length tok = 5" by (rule is_task_token_length)
  with r t have "lit_task r" by (simp add: lit_task_take5)
  moreover from n r have "drop 5 r = post" by simp
  with p have "\<exists>n. right_edge (drop 5 r) = Some n" by (simp only: right_edge_iff)
  ultimately show "\<exists>k. match_tail r = Some k" by (auto simp: match_tail_def)
qed

lemma match_at_iff:
  "(\<exists>k. match_at b s = Some k)
     = ((b \<and> (\<exists>k. match_tail s = Some k))
        \<or> (\<exists>c r. s = c # r \<and> is_space c \<and> (\<exists>k. match_tail r = Some k)))"
  by (cases s) (auto simp: match_at_def split: option.splits)

lemma split_at_space:
  "(\<exists>pre c r. a # s = pre @ c # r \<and> is_space c \<and> P r)
      = ((is_space a \<and> P s) \<or> (\<exists>pre c r. s = pre @ c # r \<and> is_space c \<and> P r))"
  (is "?L = ?R")
proof
  assume ?L
  then obtain pre c r where e: "a # s = pre @ c # r" and c: "is_space c" "P r"
    by blast
  show ?R
  proof (cases pre)
    case Nil
    with e c show ?thesis by simp
  next
    case (Cons x pre')
    with e have "s = pre' @ c # r" by simp
    with c show ?thesis by blast
  qed
next
  assume ?R
  then show ?L
  proof
    assume "is_space a \<and> P s"
    then have "a # s = [] @ a # s \<and> is_space a \<and> P s" by simp
    then show ?L by blast
  next
    assume "\<exists>pre c r. s = pre @ c # r \<and> is_space c \<and> P r"
    then obtain pre c r where "s = pre @ c # r" "is_space c" "P r" by blast
    then have "a # s = (a # pre) @ c # r \<and> is_space c \<and> P r" by simp
    then show ?L by blast
  qed
qed

lemma test_from_iff:
  "test_from b s
     = ((b \<and> (\<exists>k. match_tail s = Some k))
        \<or> (\<exists>pre c r. s = pre @ c # r \<and> is_space c \<and> (\<exists>k. match_tail r = Some k)))"
proof (induction s arbitrary: b)
  case Nil
  then show ?case by (simp add: match_at_iff)
next
  case (Cons a s)
  have "test_from b (a # s) = ((\<exists>k. match_at b (a # s) = Some k) \<or> test_from False s)"
    by simp
  also have "\<dots> = ((b \<and> (\<exists>k. match_tail (a # s) = Some k))
       \<or> (is_space a \<and> (\<exists>k. match_tail s = Some k))
       \<or> (\<exists>pre c r. s = pre @ c # r \<and> is_space c \<and> (\<exists>k. match_tail r = Some k)))"
    unfolding match_at_iff Cons.IH [of False] by auto
  also have "\<dots> = ((b \<and> (\<exists>k. match_tail (a # s) = Some k))
       \<or> (\<exists>pre c r. a # s = pre @ c # r \<and> is_space c \<and> (\<exists>k. match_tail r = Some k)))"
    unfolding split_at_space [of a s "\<lambda>r. \<exists>k. match_tail r = Some k"] by blast
  finally show ?case .
qed

lemma standalone_iff:
  "standalone_task_token s
     = ((\<exists>k. match_tail s = Some k)
        \<or> (\<exists>pre c r. s = pre @ c # r \<and> is_space c \<and> (\<exists>k. match_tail r = Some k)))"
proof
  assume "standalone_task_token s"
  then obtain pre tok post where s: "s = pre @ tok @ post" and t: "is_task_token tok"
    and l: "pre = [] \<or> is_space (last pre)" and r: "post = [] \<or> is_space (hd post)"
    unfolding standalone_task_token_def by blast
  from t r have m: "\<exists>k. match_tail (tok @ post) = Some k"
    unfolding match_tail_iff by blast
  show "(\<exists>k. match_tail s = Some k)
      \<or> (\<exists>pre c r. s = pre @ c # r \<and> is_space c \<and> (\<exists>k. match_tail r = Some k))"
  proof (cases "pre = []")
    case True
    with s m show ?thesis by simp
  next
    case False
    then have "pre = butlast pre @ [last pre]" by simp
    then have "pre @ tok @ post = butlast pre @ last pre # (tok @ post)"
      by (metis append.assoc append_Cons append_Nil)
    with s have "s = butlast pre @ last pre # (tok @ post)" by simp
    with False l m show ?thesis by blast
  qed
next
  assume "(\<exists>k. match_tail s = Some k)
      \<or> (\<exists>pre c r. s = pre @ c # r \<and> is_space c \<and> (\<exists>k. match_tail r = Some k))"
  then show "standalone_task_token s"
  proof
    assume "\<exists>k. match_tail s = Some k"
    then obtain tok post where "s = tok @ post" "is_task_token tok" "post = [] \<or> is_space (hd post)"
      unfolding match_tail_iff by blast
    then have "s = [] @ tok @ post \<and> is_task_token tok \<and> ([] = [] \<or> is_space (last []))
        \<and> (post = [] \<or> is_space (hd post))" by simp
    then show ?thesis unfolding standalone_task_token_def by blast
  next
    assume "\<exists>pre c r. s = pre @ c # r \<and> is_space c \<and> (\<exists>k. match_tail r = Some k)"
    then obtain pre c r where s: "s = pre @ c # r" and c: "is_space c"
      and m: "\<exists>k. match_tail r = Some k"
      by blast
    from m obtain tok post where "r = tok @ post" "is_task_token tok" "post = [] \<or> is_space (hd post)"
      unfolding match_tail_iff by blast
    with s c have "s = (pre @ [c]) @ tok @ post \<and> is_task_token tok
        \<and> (pre @ [c] = [] \<or> is_space (last (pre @ [c]))) \<and> (post = [] \<or> is_space (hd post))"
      by simp
    then show ?thesis unfolding standalone_task_token_def by blast
  qed
qed

lemma hasTaskFlag_iff_standalone: "hasTaskFlag s = standalone_task_token s"
  unfolding hasTaskFlag_def test_from_iff standalone_iff by simp


lemma is_task_token_not_Nil: "is_task_token tok \<Longrightarrow> tok \<noteq> []"
  using is_task_token_length [of tok] by auto

lemma standalone_drop_left:
  assumes ws: "\<forall>x\<in>set ws. is_space x"
  shows "standalone_task_token (ws @ t) = standalone_task_token t"
proof
  assume "standalone_task_token t"
  then obtain pre tok post where t: "t = pre @ tok @ post" and k: "is_task_token tok"
    and l: "pre = [] \<or> is_space (last pre)" and r: "post = [] \<or> is_space (hd post)"
    unfolding standalone_task_token_def by blast
  have "ws @ pre = [] \<or> is_space (last (ws @ pre))"
  proof (cases "pre = []")
    case True
    with ws show ?thesis by (cases "ws = []") auto
  next
    case False
    with l show ?thesis by simp
  qed
  moreover from t have "ws @ t = (ws @ pre) @ tok @ post" by simp
  ultimately show "standalone_task_token (ws @ t)"
    unfolding standalone_task_token_def using k r by blast
next
  assume "standalone_task_token (ws @ t)"
  then obtain pre tok post where e: "ws @ t = pre @ tok @ post" and k: "is_task_token tok"
    and l: "pre = [] \<or> is_space (last pre)" and r: "post = [] \<or> is_space (hd post)"
    unfolding standalone_task_token_def by blast
  from e obtain us where
    "(ws = pre @ us \<and> us @ t = tok @ post) \<or> (ws @ us = pre \<and> t = us @ tok @ post)"
    unfolding append_eq_append_conv2 by blast
  then show "standalone_task_token t"
  proof
    assume a: "ws = pre @ us \<and> us @ t = tok @ post"
    have "us = []"
    proof (rule ccontr)
      assume n: "us \<noteq> []"
      with a have "hd us = hd tok"
        using is_task_token_not_Nil [OF k] by (metis hd_append2)
      moreover from n a ws have "is_space (hd us)" by simp
      moreover have "\<not> is_space (hd tok)"
        using is_task_token_no_space [OF k, of "hd tok"] is_task_token_not_Nil [OF k] by simp
      ultimately show False by simp
    qed
    with a have "t = [] @ tok @ post" by simp
    with k r show ?thesis unfolding standalone_task_token_def by blast
  next
    assume b: "ws @ us = pre \<and> t = us @ tok @ post"
    have "us = [] \<or> is_space (last us)"
    proof (cases "us = []")
      case True
      then show ?thesis by simp
    next
      case False
      with b have "last pre = last us" by auto
      with False b l show ?thesis by auto
    qed
    with b k r show ?thesis unfolding standalone_task_token_def by blast
  qed
qed

lemma standalone_drop_right:
  assumes ws: "\<forall>x\<in>set ws. is_space x"
  shows "standalone_task_token (t @ ws) = standalone_task_token t"
proof
  assume "standalone_task_token t"
  then obtain pre tok post where t: "t = pre @ tok @ post" and k: "is_task_token tok"
    and l: "pre = [] \<or> is_space (last pre)" and r: "post = [] \<or> is_space (hd post)"
    unfolding standalone_task_token_def by blast
  have "post @ ws = [] \<or> is_space (hd (post @ ws))"
  proof (cases "post = []")
    case True
    with ws show ?thesis by (cases ws) auto
  next
    case False
    with r show ?thesis by simp
  qed
  moreover from t have "t @ ws = pre @ tok @ (post @ ws)" by simp
  ultimately show "standalone_task_token (t @ ws)"
    unfolding standalone_task_token_def using k l by blast
next
  assume "standalone_task_token (t @ ws)"
  then obtain pre tok post where e: "t @ ws = pre @ tok @ post" and k: "is_task_token tok"
    and l: "pre = [] \<or> is_space (last pre)" and r: "post = [] \<or> is_space (hd post)"
    unfolding standalone_task_token_def by blast
  from e have "t @ ws = (pre @ tok) @ post" by simp
  then obtain us where
    "(t = (pre @ tok) @ us \<and> us @ ws = post) \<or> (t @ us = pre @ tok \<and> ws = us @ post)"
    unfolding append_eq_append_conv2 by blast
  then show "standalone_task_token t"
  proof
    assume a: "t = (pre @ tok) @ us \<and> us @ ws = post"
    have "us = [] \<or> is_space (hd us)"
    proof (cases "us = []")
      case True
      then show ?thesis by simp
    next
      case False
      with a have "hd post = hd us" by auto
      with False a r show ?thesis by auto
    qed
    moreover from a have "t = pre @ tok @ us" by simp
    ultimately show ?thesis unfolding standalone_task_token_def using k l by blast
  next
    assume b: "t @ us = pre @ tok \<and> ws = us @ post"
    have "us = []"
    proof (rule ccontr)
      assume n: "us \<noteq> []"
      with b have "last us = last tok"
        using is_task_token_not_Nil [OF k] by (metis last_appendR)
      moreover from n b ws have "is_space (last us)" by simp
      moreover have "\<not> is_space (last tok)"
        using is_task_token_no_space [OF k, of "last tok"] is_task_token_not_Nil [OF k] by simp
      ultimately show False by simp
    qed
    with b have "t = pre @ tok @ []" by simp
    with k l show ?thesis unfolding standalone_task_token_def by blast
  qed
qed

lemma standalone_trim: "standalone_task_token (trim s) = standalone_task_token s"
proof -
  let ?u = "trimStart s"
  have "\<forall>x\<in>set (takeWhile is_space s). is_space x"
    by (auto dest: set_takeWhileD)
  then have "standalone_task_token (takeWhile is_space s @ ?u) = standalone_task_token ?u"
    by (rule standalone_drop_left)
  then have a: "standalone_task_token s = standalone_task_token ?u"
    by (simp add: trimStart_def)
  have "rev (dropWhile is_space (rev ?u)) @ rev (takeWhile is_space (rev ?u))
      = rev (takeWhile is_space (rev ?u) @ dropWhile is_space (rev ?u))"
    by (simp only: rev_append)
  also have "\<dots> = rev (rev ?u)" by (simp only: takeWhile_dropWhile_id)
  also have "\<dots> = ?u" by (simp only: rev_rev_ident)
  finally have u: "?u = trimEnd ?u @ rev (takeWhile is_space (rev ?u))"
    by (simp only: trimEnd_def)
  have "\<forall>x\<in>set (rev (takeWhile is_space (rev ?u))). is_space x"
    by (auto dest: set_takeWhileD)
  then have "standalone_task_token (trimEnd ?u @ rev (takeWhile is_space (rev ?u)))
      = standalone_task_token (trimEnd ?u)"
    by (rule standalone_drop_right)
  with u have "standalone_task_token ?u = standalone_task_token (trimEnd ?u)" by simp
  with a show ?thesis by (simp add: trim_def)
qed

text \<open>
  C4. Detection is true exactly when the content holds \<open>:task\<close>, in any case of its
  letters, as a separate word: with the start of the string or white space on its left
  and white space or the end of the string on its right. This holds for the test itself
  and for the test on the trimmed content, which is what the command runs. The flag
  inside a longer word, as in \<open>foo:taskbar\<close> or \<open>x:taskx\<close>, does not trigger.
\<close>

theorem task_flag_is_standalone_token:
  "hasTaskFlag s = standalone_task_token s
   \<and> hasTaskFlag (trim content) = standalone_task_token content
   \<and> hasTaskFlag (js ''ship it :TASK now'')
   \<and> \<not> hasTaskFlag (js ''foo:taskbar'')
   \<and> \<not> hasTaskFlag (js ''x:taskx'')"
proof -
  have "hasTaskFlag (js ''ship it :TASK now'')"
    by (simp add: flag_eval)
  moreover have "\<not> hasTaskFlag (js ''foo:taskbar'')"
    by (simp add: flag_eval)
  moreover have "\<not> hasTaskFlag (js ''x:taskx'')"
    by (simp add: flag_eval)
  ultimately show ?thesis
    by (simp add: hasTaskFlag_iff_standalone standalone_trim)
qed


subsection \<open>The stored content of a posted message\<close>

declare replace_from.simps [simp del]

lemma match_at_Nil: "match_at b [] = None"
  by (simp add: match_at_def match_tail_def)

lemma replace_from_no_match: "\<not> test_from b s \<Longrightarrow> replace_from b s = s"
proof (induction s arbitrary: b)
  case Nil
  then show ?case by (simp add: replace_from.simps [of b "[]"] match_at_Nil)
next
  case (Cons c r)
  from Cons.prems have m: "match_at b (c # r) = None" and t: "\<not> test_from False r"
    by simp_all
  from t have "replace_from False r = r" by (rule Cons.IH)
  with m show ?case by (simp add: replace_from.simps [of b "c # r"])
qed

lemma trimEnd_prefix: "s = trimEnd s @ rev (takeWhile is_space (rev s))"
proof -
  have "trimEnd s @ rev (takeWhile is_space (rev s))
      = rev (takeWhile is_space (rev s) @ dropWhile is_space (rev s))"
    by (simp only: trimEnd_def rev_append)
  also have "\<dots> = rev (rev s)" by (simp only: takeWhile_dropWhile_id)
  finally show ?thesis by simp
qed

lemma trimStart_trimmed: "s = [] \<or> \<not> is_space (hd s) \<Longrightarrow> trimStart s = s"
  by (cases s) (auto simp: trimStart_def)

lemma trimEnd_idem: "trimEnd (trimEnd s) = trimEnd s"
  by (simp add: trimEnd_def)

lemma trim_idem: "trim (trim s) = trim s"
proof -
  let ?u = "trimStart s"
  have u: "?u = [] \<or> \<not> is_space (hd ?u)"
    unfolding trimStart_def by (metis hd_dropWhile)
  have "trimEnd ?u = [] \<or> \<not> is_space (hd (trimEnd ?u))"
  proof (cases "trimEnd ?u = []")
    case True
    then show ?thesis by simp
  next
    case False
    then have "hd (trimEnd ?u @ rev (takeWhile is_space (rev ?u))) = hd (trimEnd ?u)" by simp
    then have h: "hd ?u = hd (trimEnd ?u)" by (simp only: trimEnd_prefix [symmetric])
    from False have "?u \<noteq> []" by (auto simp: trimEnd_def)
    with u h show ?thesis by simp
  qed
  then have "trimStart (trimEnd ?u) = trimEnd ?u" by (rule trimStart_trimmed)
  then show ?thesis by (simp add: trim_def trimEnd_idem)
qed

text \<open>
  The stored content is the stripped content when that is not empty, and the trimmed
  content otherwise; without a flag the two are the same.
\<close>

lemma contentForMessage_stripped_or_raw:
  "contentForMessage body =
     (if stripTaskFlag (trim (pb_content body)) \<noteq> [] then stripTaskFlag (trim (pb_content body))
      else trim (pb_content body))"
proof (cases "hasTaskFlag (trim (pb_content body))")
  case True
  then show ?thesis by (simp add: contentForMessage_def Let_def)
next
  case False
  then have "replace_from True (trim (pb_content body)) = trim (pb_content body)"
    unfolding hasTaskFlag_def by (rule replace_from_no_match)
  then have "stripTaskFlag (trim (pb_content body)) = trim (pb_content body)"
    by (simp add: stripTaskFlag_def trim_idem)
  with False show ?thesis by (simp add: contentForMessage_def Let_def)
qed

subsection \<open>The unfiltered listing\<close>

text \<open>
  Without a status, channel or thread filter, and while the table holds at most 200 rows,
  the listing holds the joined tasks that are not done or were updated within the window.
\<close>

lemma list_tasks_unfiltered:
  assumes "length (tasks st) \<le> 200" and "parse_status (q_status q) = None"
    and "q_channelId q = None" and "q_threadId q = None"
  shows "set (list_tasks env st now q)
     = {t \<in> set (tasks st). task_joined st t
          \<and> (t_status t \<noteq> Done \<or> now - days (DONE_TASK_RETENTION_DAYS env) \<le> t_updated_at t)}"
proof -
  let ?rows = "filter (\<lambda>t. task_joined st t \<and> task_where env now q t) (tasks st)"
  have "length ?rows \<le> length (tasks st)" by (rule length_filter_le)
  also note assms(1)
  finally have "length ?rows \<le> 200" .
  then have "length (sort_key (\<lambda>t. - t_id t) ?rows) \<le> 200" by simp
  then have "take 200 (sort_key (\<lambda>t. - t_id t) ?rows) = sort_key (\<lambda>t. - t_id t) ?rows"
    by simp
  then have "set (list_tasks env st now q) = set ?rows"
    by (simp add: list_tasks_def)
  with assms(2-4) show ?thesis
    by (auto simp: task_where_def)
qed


subsection \<open>The line that a checklist ordinal addresses\<close>

declare fences.simps [simp del]

lemma is_fence_at_iff: "is_fence_at s = fence_mark_at s 0"
  by (cases s rule: is_fence_at.cases) (auto simp: fence_mark_at_def)

lemma fence_mark_at_Nil: "\<not> fence_mark_at [] j"
  by (simp add: fence_mark_at_def)

lemma fence_mark_at_Suc: "fence_mark_at (c # r) (Suc j) = fence_mark_at r j"
  by (simp add: fence_mark_at_def)

lemma fence_mark_at_drop: "fence_mark_at (drop m s) j = fence_mark_at s (m + j)"
  by (simp add: fence_mark_at_def add.commute)

lemma find_fence_iff:
  "(find_fence s = Some i) = (fence_mark_at s i \<and> (\<forall>j<i. \<not> fence_mark_at s j))"
proof (induction s arbitrary: i)
  case Nil
  then show ?case by (simp add: fence_mark_at_Nil)
next
  case (Cons c r)
  show ?case
  proof (cases "fence_mark_at (c # r) 0")
    case True
    then have "find_fence (c # r) = Some 0" by (simp add: is_fence_at_iff)
    moreover have "(fence_mark_at (c # r) i \<and> (\<forall>j<i. \<not> fence_mark_at (c # r) j)) = (i = 0)"
      using True by (cases i) auto
    ultimately show ?thesis by auto
  next
    case False
    then have f: "find_fence (c # r) = map_option Suc (find_fence r)"
      by (simp add: is_fence_at_iff)
    show ?thesis
    proof (cases i)
      case 0
      with False f show ?thesis by auto
    next
      case (Suc k)
      have "(\<forall>j<Suc k. \<not> fence_mark_at (c # r) j) = (\<forall>j<k. \<not> fence_mark_at r j)"
      proof
        assume a: "\<forall>j<Suc k. \<not> fence_mark_at (c # r) j"
        show "\<forall>j<k. \<not> fence_mark_at r j"
        proof (intro allI impI)
          fix j assume "j < k"
          with a have "\<not> fence_mark_at (c # r) (Suc j)" by simp
          then show "\<not> fence_mark_at r j" by (simp add: fence_mark_at_Suc)
        qed
      next
        assume a: "\<forall>j<k. \<not> fence_mark_at r j"
        show "\<forall>j<Suc k. \<not> fence_mark_at (c # r) j"
        proof (intro allI impI)
          fix j assume j: "j < Suc k"
          show "\<not> fence_mark_at (c # r) j"
          proof (cases j)
            case 0
            with False show ?thesis by simp
          next
            case (Suc j')
            with j a show ?thesis by (simp add: fence_mark_at_Suc)
          qed
        qed
      qed
      with Suc f Cons.IH [of k] show ?thesis
        by (auto simp: fence_mark_at_Suc)
    qed
  qed
qed

lemma fence_exec_iff: "(fence_exec s = Some (i, n)) = first_fence s i n"
proof
  assume "fence_exec s = Some (i, n)"
  then obtain j where a: "find_fence s = Some i" and b: "find_fence (drop (i + 3) s) = Some j"
    and n: "n = j + 6"
    by (auto simp: fence_exec_def split: option.splits)
  from a have a1: "fence_mark_at s i" and a2: "\<forall>j<i. \<not> fence_mark_at s j"
    by (simp_all add: find_fence_iff)
  from b have b1: "fence_mark_at s (i + 3 + j)" and b2: "\<forall>k<j. \<not> fence_mark_at s (i + 3 + k)"
    by (simp_all add: find_fence_iff fence_mark_at_drop)
  have m: "\<not> fence_mark_at s m" if "i + 3 \<le> m" "m < i + n - 3" for m
  proof -
    from that n have "m - (i + 3) < j" and "m = i + 3 + (m - (i + 3))" by simp_all
    with b2 show ?thesis by metis
  qed
  from n have e: "i + n - 3 = i + 3 + j" by simp
  have c: "fence_mark_at s (i + n - 3)" unfolding e by (rule b1)
  from n have n6: "6 \<le> n" by simp
  have d: "\<forall>j. i + 3 \<le> j \<and> j < i + n - 3 \<longrightarrow> \<not> fence_mark_at s j"
  proof (intro allI impI)
    fix x
    assume x: "i + 3 \<le> x \<and> x < i + n - 3"
    from x have x1: "i + 3 \<le> x" by (rule conjunct1)
    from x have x2: "x < i + n - 3" by (rule conjunct2)
    from x1 x2 show "\<not> fence_mark_at s x" by (rule m)
  qed
  show "first_fence s i n"
    unfolding first_fence_def
  proof (intro conjI)
    show "6 \<le> n" by (rule n6)
    show "fence_mark_at s i" by (rule a1)
    show "fence_mark_at s (i + n - 3)" by (rule c)
    show "\<forall>j<i. \<not> fence_mark_at s j" by (rule a2)
    show "\<forall>j. i + 3 \<le> j \<and> j < i + n - 3 \<longrightarrow> \<not> fence_mark_at s j" by (rule d)
  qed
next
  assume f: "first_fence s i n"
  then have n: "6 \<le> n" and a1: "fence_mark_at s i" and a2: "\<forall>j<i. \<not> fence_mark_at s j"
    and b1: "fence_mark_at s (i + n - 3)"
    and b2: "\<forall>j. i + 3 \<le> j \<and> j < i + n - 3 \<longrightarrow> \<not> fence_mark_at s j"
    by (simp_all add: first_fence_def)
  from a1 a2 have a: "find_fence s = Some i" by (simp only: find_fence_iff simp_thms)
  define j where "j = n - 6"
  from n have nj: "n = j + 6" by (simp add: j_def)
  have e: "i + n - 3 = i + 3 + j" unfolding nj by simp
  from b1 have "fence_mark_at s (i + 3 + j)" unfolding e .
  then have c1: "fence_mark_at (drop (i + 3) s) j" by (simp only: fence_mark_at_drop)
  have c2: "\<forall>k<j. \<not> fence_mark_at (drop (i + 3) s) k"
  proof (intro allI impI)
    fix k
    assume "k < j"
    then have "i + 3 \<le> i + 3 + k \<and> i + 3 + k < i + n - 3" unfolding e by simp
    with b2 have "\<not> fence_mark_at s (i + 3 + k)" by blast
    then show "\<not> fence_mark_at (drop (i + 3) s) k" unfolding fence_mark_at_drop .
  qed
  have "find_fence (drop (i + 3) s) = Some j"
    unfolding find_fence_iff by (rule conjI [OF c1 c2])
  with a show "fence_exec s = Some (i, n)"
    by (simp add: fence_exec_def nj)
qed

lemma fence_exec_None_iff: "(fence_exec s = None) = (\<forall>i n. \<not> first_fence s i n)"
proof (cases "fence_exec s")
  case None
  then have "\<not> first_fence s i n" for i n
    using fence_exec_iff [of s i n] by simp
  with None show ?thesis by simp
next
  case (Some p)
  obtain i n where "p = (i, n)" by (cases p)
  with Some have "first_fence s i n" by (simp add: fence_exec_iff)
  with Some show ?thesis by auto
qed

lemma interleave_segments: "interleave (plain_segments rest) (fences rest) = rest"
proof (induction rest rule: plain_segments.induct)
  case (1 rest)
  show ?case
  proof (cases "fence_exec rest")
    case None
    then show ?thesis by (simp add: plain_segments.simps [of rest] fences.simps [of rest])
  next
    case (Some p)
    obtain i n where p: "p = (i, n)" by (cases p)
    have e: "(i, n) = p" using p by simp
    from "1.IH" [OF Some e] Some p show ?thesis
      by (simp add: plain_segments.simps [of rest] fences.simps [of rest] slice_three)
  qed
qed

lemma checklist_lines_in_segments: "checklist_lines content = checklist_lines_in (plain_segments content)"
  by (simp add: checklist_lines_def checklist_lines_in_def)

lemma checklist_lines_in_Cons:
  "checklist_lines_in (p # ps) = filter is_checklist (split_nl p) @ checklist_lines_in ps"
  by (simp add: checklist_lines_in_def)

lemma checklist_lines_in_Nil: "checklist_lines_in [] = []"
  by (simp add: checklist_lines_in_def)


lemma toggle_lines_rewrite:
  assumes "int seen \<le> k" and "k < int (seen + length (filter is_checklist ls))"
  shows "\<exists>ls1 line ls2. ls = ls1 @ line # ls2 \<and> is_checklist line
     \<and> seen + length (filter is_checklist ls1) = nat k
     \<and> fst (toggle_lines k checked ls seen updated) = ls1 @ rewrite_line checked line # ls2"
  using assms
proof (induction ls arbitrary: seen updated)
  case Nil
  then show ?case by simp
next
  case (Cons l ls)
  show ?case
  proof (cases "is_checklist l")
    case False
    with Cons.prems have "k < int (seen + length (filter is_checklist ls))" by simp
    from Cons.IH [OF Cons.prems(1) this, of updated] obtain ls1 line ls2 where
      a: "ls = ls1 @ line # ls2" "is_checklist line" "seen + length (filter is_checklist ls1) = nat k"
      "fst (toggle_lines k checked ls seen updated) = ls1 @ rewrite_line checked line # ls2"
      by blast
    from a False have "l # ls = (l # ls1) @ line # ls2 \<and> is_checklist line
       \<and> seen + length (filter is_checklist (l # ls1)) = nat k
       \<and> fst (toggle_lines k checked (l # ls) seen updated) = (l # ls1) @ rewrite_line checked line # ls2"
      by (simp add: split_beta)
    then show ?thesis by blast
  next
    case True
    show ?thesis
    proof (cases "int seen = k")
      case eq: True
      have "fst (toggle_lines k checked ls (seen + 1) True) = ls"
      proof (rule toggle_lines_out)
        fix j
        assume "int (seen + 1 + j) = k"
        with eq show "rewrite_line checked (filter is_checklist ls ! j) = filter is_checklist ls ! j"
          by simp
      qed
      with True eq have "l # ls = [] @ l # ls \<and> is_checklist l
         \<and> seen + length (filter is_checklist []) = nat k
         \<and> fst (toggle_lines k checked (l # ls) seen updated) = [] @ rewrite_line checked l # ls"
        by (auto simp: split_beta)
      then show ?thesis by blast
    next
      case neq: False
      with Cons.prems True have p: "int (seen + 1) \<le> k"
        "k < int (seen + 1 + length (filter is_checklist ls))" by simp_all
      from Cons.IH [OF p, of updated] obtain ls1 line ls2 where
        a: "ls = ls1 @ line # ls2" "is_checklist line"
        "seen + 1 + length (filter is_checklist ls1) = nat k"
        "fst (toggle_lines k checked ls (seen + 1) updated) = ls1 @ rewrite_line checked line # ls2"
        by blast
      from a True neq have "l # ls = (l # ls1) @ line # ls2 \<and> is_checklist line
         \<and> seen + length (filter is_checklist (l # ls1)) = nat k
         \<and> fst (toggle_lines k checked (l # ls) seen updated) = (l # ls1) @ rewrite_line checked line # ls2"
        by (simp add: split_beta)
      then show ?thesis by blast
    qed
  qed
qed

lemma replaceInPlain_rewrite:
  assumes "int seen \<le> k" and "k < int (seen + length (filter is_checklist (split_nl plain)))"
  shows "\<exists>ls1 line ls2. split_nl plain = ls1 @ line # ls2 \<and> is_checklist line
     \<and> seen + length (filter is_checklist ls1) = nat k
     \<and> fst (replaceInPlain k checked plain seen updated)
         = join_nl (ls1 @ rewrite_line checked line # ls2)"
proof -
  from toggle_lines_rewrite [OF assms, of checked updated] obtain ls1 line ls2 where
    "split_nl plain = ls1 @ line # ls2" "is_checklist line"
    "seen + length (filter is_checklist ls1) = nat k"
    "fst (toggle_lines k checked (split_nl plain) seen updated) = ls1 @ rewrite_line checked line # ls2"
    by blast
  then have "split_nl plain = ls1 @ line # ls2 \<and> is_checklist line
     \<and> seen + length (filter is_checklist ls1) = nat k
     \<and> fst (replaceInPlain k checked plain seen updated)
         = join_nl (ls1 @ rewrite_line checked line # ls2)"
    by (simp add: replaceInPlain_def split_beta)
  then show ?thesis by blast
qed


lemma checklist_lines_in_append:
  "checklist_lines_in (xs @ ys) = checklist_lines_in xs @ checklist_lines_in ys"
  by (simp add: checklist_lines_in_def)

lemma scan_fences_rewrite:
  assumes "int seen \<le> k" and "k < int (seen + length (checklist_lines rest))"
  shows "\<exists>j ls1 line ls2. j < length (plain_segments rest)
     \<and> split_nl (plain_segments rest ! j) = ls1 @ line # ls2 \<and> is_checklist line
     \<and> seen + length (checklist_lines_in (take j (plain_segments rest)))
          + length (filter is_checklist ls1) = nat k
     \<and> fst (scan_fences k checked rest seen updated)
         = interleave ((plain_segments rest)[j := join_nl (ls1 @ rewrite_line checked line # ls2)])
             (fences rest)"
  using assms
proof (induction k checked rest seen updated rule: scan_fences.induct)
  case (1 ordinal checked rest seen updated)
  show ?case
  proof (cases "fence_exec rest")
    case None
    then have ps: "plain_segments rest = [rest]" and fs: "fences rest = []"
      by (simp_all add: plain_segments.simps [of rest] fences.simps [of rest])
    from ps have cl: "checklist_lines rest = filter is_checklist (split_nl rest)"
      by (simp add: checklist_lines_def)
    from None have sc: "scan_fences ordinal checked rest seen updated
        = replaceInPlain ordinal checked rest seen updated"
      by (simp add: scan_fences.simps [of _ _ rest])
    from "1.prems" have "ordinal < int (seen + length (filter is_checklist (split_nl rest)))"
      by (simp only: cl)
    from replaceInPlain_rewrite [OF "1.prems"(1) this, of checked updated]
    obtain ls1 line ls2 where
      a: "split_nl rest = ls1 @ line # ls2" "is_checklist line"
      "seen + length (filter is_checklist ls1) = nat ordinal"
      "fst (replaceInPlain ordinal checked rest seen updated)
         = join_nl (ls1 @ rewrite_line checked line # ls2)"
      by blast
    from a have "0 < length (plain_segments rest)
       \<and> split_nl (plain_segments rest ! 0) = ls1 @ line # ls2 \<and> is_checklist line
       \<and> seen + length (checklist_lines_in (take 0 (plain_segments rest)))
            + length (filter is_checklist ls1) = nat ordinal
       \<and> fst (scan_fences ordinal checked rest seen updated)
           = interleave ((plain_segments rest)[0 := join_nl (ls1 @ rewrite_line checked line # ls2)])
               (fences rest)"
      by (simp add: ps fs sc checklist_lines_in_Nil)
    then show ?thesis by blast
  next
    case (Some p)
    obtain i n where p: "p = (i, n)" by (cases p)
    define A where "A = filter is_checklist (split_nl (take i rest))"
    define r1 where "r1 = replaceInPlain ordinal checked (take i rest) seen updated"
    define seen1 where "seen1 = fst (snd r1)"
    define upd1 where "upd1 = snd (snd r1)"
    let ?rest' = "drop (i + n) rest"
    let ?B = "checklist_lines ?rest'"
    let ?r2 = "scan_fences ordinal checked ?rest' seen1 upd1"
    have seen1: "seen1 = seen + length A"
      by (simp add: seen1_def r1_def A_def replaceInPlain_seen)
    from Some p have ps: "plain_segments rest = take i rest # plain_segments ?rest'"
      and fs: "fences rest = take n (drop i rest) # fences ?rest'"
      by (simp_all add: plain_segments.simps [of rest] fences.simps [of rest])
    have cl: "checklist_lines rest = A @ ?B"
      by (simp add: checklist_lines_def ps A_def)
    have sc: "fst (scan_fences ordinal checked rest seen updated)
        = fst r1 @ take n (drop i rest) @ fst ?r2"
      using Some p
      by (simp add: scan_fences.simps [of _ _ rest] split_beta r1_def seen1_def upd1_def)
    have e2: "(i, n) = p" using p by simp
    have e3: "(fst r1, snd r1) = replaceInPlain ordinal checked (take i rest) seen updated"
      by (simp add: r1_def)
    have e4: "(seen1, upd1) = snd r1"
      by (simp add: seen1_def upd1_def)
    note IH = "1.IH" [OF Some e2 e3 e4]
    show ?thesis
    proof (cases "ordinal < int (seen + length A)")
      case True
      then have "ordinal < int (seen + length (filter is_checklist (split_nl (take i rest))))"
        by (simp only: A_def)
      from replaceInPlain_rewrite [OF "1.prems"(1) this, of checked updated]
      obtain ls1 line ls2 where
        a: "split_nl (take i rest) = ls1 @ line # ls2" "is_checklist line"
        "seen + length (filter is_checklist ls1) = nat ordinal"
        "fst r1 = join_nl (ls1 @ rewrite_line checked line # ls2)"
        unfolding r1_def by blast
      have "rewrite_line checked (?B ! j) = ?B ! j"
        if "j < length ?B" "int (seen1 + j) = ordinal" for j
        using that True by (simp add: seen1)
      then have "fst ?r2 = ?rest'"
        using scan_fences_spec [of ordinal checked ?rest' seen1 upd1] by blast
      then have r2: "fst ?r2 = interleave (plain_segments ?rest') (fences ?rest')"
        by (simp only: interleave_segments)
      from a r2 have "0 < length (plain_segments rest)
         \<and> split_nl (plain_segments rest ! 0) = ls1 @ line # ls2 \<and> is_checklist line
         \<and> seen + length (checklist_lines_in (take 0 (plain_segments rest)))
              + length (filter is_checklist ls1) = nat ordinal
         \<and> fst (scan_fences ordinal checked rest seen updated)
             = interleave ((plain_segments rest)[0 := join_nl (ls1 @ rewrite_line checked line # ls2)])
                 (fences rest)"
        by (simp add: ps fs sc checklist_lines_in_Nil)
      then show ?thesis by blast
    next
      case False
      have "fst r1 = take i rest"
        unfolding r1_def
      proof (rule replaceInPlain_out)
        fix j
        assume "j < length (filter is_checklist (split_nl (take i rest)))" "int (seen + j) = ordinal"
        with False
        show "rewrite_line checked (filter is_checklist (split_nl (take i rest)) ! j)
           = filter is_checklist (split_nl (take i rest)) ! j"
          by (simp add: A_def)
      qed
      then have r1: "fst r1 = take i rest" .
      from False have p1: "int seen1 \<le> ordinal" by (simp add: seen1)
      from "1.prems"(2) have p2: "ordinal < int (seen1 + length ?B)"
        by (simp add: cl seen1 add.assoc)
      from IH [OF p1 p2] obtain j ls1 line ls2 where
        b: "j < length (plain_segments ?rest')"
        "split_nl (plain_segments ?rest' ! j) = ls1 @ line # ls2" "is_checklist line"
        "seen1 + length (checklist_lines_in (take j (plain_segments ?rest')))
           + length (filter is_checklist ls1) = nat ordinal"
        "fst ?r2 = interleave
           ((plain_segments ?rest')[j := join_nl (ls1 @ rewrite_line checked line # ls2)])
           (fences ?rest')"
        by blast
      from b r1 have "Suc j < length (plain_segments rest)
         \<and> split_nl (plain_segments rest ! Suc j) = ls1 @ line # ls2 \<and> is_checklist line
         \<and> seen + length (checklist_lines_in (take (Suc j) (plain_segments rest)))
              + length (filter is_checklist ls1) = nat ordinal
         \<and> fst (scan_fences ordinal checked rest seen updated)
             = interleave ((plain_segments rest)[Suc j := join_nl (ls1 @ rewrite_line checked line # ls2)])
                 (fences rest)"
        by (simp add: ps fs sc checklist_lines_in_Cons seen1 add.assoc flip: A_def)
      then show ?thesis by blast
    qed
  qed
qed

lemma nth_checklist_line:
  assumes "j < length segments" and "split_nl (segments ! j) = ls1 @ line # ls2"
    and "is_checklist line"
  shows "checklist_lines_in segments
           ! (length (checklist_lines_in (take j segments)) + length (filter is_checklist ls1))
         = line"
proof -
  from assms(1) have "segments = take j segments @ segments ! j # drop (Suc j) segments"
    by (rule id_take_nth_drop)
  then have "checklist_lines_in segments
      = checklist_lines_in (take j segments @ segments ! j # drop (Suc j) segments)"
    by simp
  also have "\<dots> = (checklist_lines_in (take j segments) @ filter is_checklist ls1)
      @ line # (filter is_checklist ls2 @ checklist_lines_in (drop (Suc j) segments))"
    using assms(2,3) by (simp add: checklist_lines_in_append checklist_lines_in_Cons)
  finally have e: "checklist_lines_in segments
      = (checklist_lines_in (take j segments) @ filter is_checklist ls1)
        @ line # (filter is_checklist ls2 @ checklist_lines_in (drop (Suc j) segments))" .
  show ?thesis
    unfolding e
    using nth_append_length [of "checklist_lines_in (take j segments) @ filter is_checklist ls1"
        line "filter is_checklist ls2 @ checklist_lines_in (drop (Suc j) segments)"]
    by simp
qed

lemma applyChecklistToggle_rewrites_line:
  assumes "0 \<le> k" and "k < int (length (checklist_lines content))"
  shows "\<exists>j ls1 line ls2. j < length (plain_segments content)
     \<and> split_nl (plain_segments content ! j) = ls1 @ line # ls2 \<and> is_checklist line
     \<and> line = checklist_lines content ! nat k
     \<and> length (checklist_lines_in (take j (plain_segments content)))
          + length (filter is_checklist ls1) = nat k
     \<and> applyChecklistToggle content k checked
         = interleave
             ((plain_segments content)[j := join_nl (ls1 @ rewrite_line checked line # ls2)])
             (fences content)"
proof -
  from assms have a1: "int 0 \<le> k" and a2: "k < int (0 + length (checklist_lines content))"
    by simp_all
  from scan_fences_rewrite [OF a1 a2, of checked False] obtain j ls1 line ls2 where
    b: "j < length (plain_segments content)"
    "split_nl (plain_segments content ! j) = ls1 @ line # ls2" "is_checklist line"
    "0 + length (checklist_lines_in (take j (plain_segments content)))
       + length (filter is_checklist ls1) = nat k"
    "fst (scan_fences k checked content 0 False)
       = interleave ((plain_segments content)[j := join_nl (ls1 @ rewrite_line checked line # ls2)])
           (fences content)"
    by blast
  from assms have "snd (snd (scan_fences k checked content 0 False))"
    using scan_fences_spec [of k checked content 0 False] by simp
  with assms b(5) have r: "applyChecklistToggle content k checked
      = interleave ((plain_segments content)[j := join_nl (ls1 @ rewrite_line checked line # ls2)])
          (fences content)"
    by (simp add: applyChecklistToggle_def split_beta)
  from b(4) have n: "length (checklist_lines_in (take j (plain_segments content)))
       + length (filter is_checklist ls1) = nat k" by simp
  from nth_checklist_line [OF b(1) b(2) b(3)] have "line = checklist_lines content ! nat k"
    by (simp only: n checklist_lines_in_segments)
  with b(1,2,3) n r show ?thesis by blast
qed


lemma length_plain_segments: "length (plain_segments rest) = Suc (length (fences rest))"
proof (induction rest rule: plain_segments.induct)
  case (1 rest)
  show ?case
  proof (cases "fence_exec rest")
    case None
    then show ?thesis by (simp add: plain_segments.simps [of rest] fences.simps [of rest])
  next
    case (Some p)
    obtain i n where p: "p = (i, n)" by (cases p)
    have e: "(i, n) = p" using p by simp
    from "1.IH" [OF Some e] Some p show ?thesis
      by (simp add: plain_segments.simps [of rest] fences.simps [of rest])
  qed
qed

lemma segments_of_first_fence:
  "first_fence content i n \<Longrightarrow>
   plain_segments content = take i content # plain_segments (drop (i + n) content)
   \<and> fences content = take n (drop i content) # fences (drop (i + n) content)"
  by (simp add: plain_segments.simps [of content] fences.simps [of content] flip: fence_exec_iff)

lemma segments_without_fence:
  "\<forall>i n. \<not> first_fence content i n \<Longrightarrow> plain_segments content = [content] \<and> fences content = []"
  by (simp add: plain_segments.simps [of content] fences.simps [of content] flip: fence_exec_None_iff)

lemmas segment_eval = checklist_eval fences.simps

text \<open>
  C7. Ordinals number the checklist lines outside triple-backtick fenced blocks, in
  document order over the whole content. For every content: a fenced block is what the
  loop finds, from the first three backticks to the next three after them; the content is
  its plain parts and fenced blocks in turn; an ordinal that is not below the number of
  checklist lines of the plain parts changes nothing; and an ordinal \<open>k\<close> below it
  rewrites one line of one plain part, the checklist line that has exactly \<open>k\<close> checklist
  lines of the plain parts before it, and leaves every other line and every fenced block
  as it is. For the content of the lines \<open>- [ ] a\<close>, a fence, \<open>- [ ] fake\<close>, a fence and
  \<open>- [ ] b\<close>, the addressable lines are \<open>a\<close> (ordinal 0) and \<open>b\<close> (ordinal 1), and
  the fenced line is the same in every result. Two backticks do not fence.
\<close>

theorem checklist_ordinals_skip_fences:
  "(fence_exec s = Some (i, n)) = first_fence s i n
   \<and> (fence_exec s = None) = (\<forall>i n. \<not> first_fence s i n)
   \<and> (first_fence content i n \<longrightarrow>
        plain_segments content = take i content # plain_segments (drop (i + n) content)
        \<and> fences content = take n (drop i content) # fences (drop (i + n) content))
   \<and> ((\<forall>i n. \<not> first_fence content i n) \<longrightarrow>
        plain_segments content = [content] \<and> fences content = [])
   \<and> interleave (plain_segments content) (fences content) = content
   \<and> length (plain_segments content) = Suc (length (fences content))
   \<and> checklist_lines content = checklist_lines_in (plain_segments content)
   \<and> (\<not> (0 \<le> k \<and> k < int (length (checklist_lines content))) \<longrightarrow>
        applyChecklistToggle content k checked = content)
   \<and> (0 \<le> k \<and> k < int (length (checklist_lines content)) \<longrightarrow>
        (\<exists>j ls1 line ls2. j < length (plain_segments content)
           \<and> split_nl (plain_segments content ! j) = ls1 @ line # ls2 \<and> is_checklist line
           \<and> line = checklist_lines content ! nat k
           \<and> length (checklist_lines_in (take j (plain_segments content)))
                + length (filter is_checklist ls1) = nat k
           \<and> applyChecklistToggle content k checked
               = interleave
                   ((plain_segments content)
                      [j := join_nl (ls1 @ rewrite_line checked line # ls2)])
                   (fences content)))
   \<and> checklist_lines fence_example = [js ''- [ ] a'', js ''- [ ] b'']
   \<and> applyChecklistToggle fence_example k checked
       = (if k = 0 \<and> checked
          then js ''- [x] a\<newline>```\<newline>- [ ] fake\<newline>```\<newline>- [ ] b''
          else if k = 1 \<and> checked
          then js ''- [ ] a\<newline>```\<newline>- [ ] fake\<newline>```\<newline>- [x] b''
          else fence_example)
   \<and> applyChecklistToggle two_backtick_example 0 True = js ''``\<newline>- [x] q\<newline>``''"
proof -
  have ex1: "checklist_lines fence_example = [js ''- [ ] a'', js ''- [ ] b'']"
    by (simp add: fence_example_def checklist_eval)
  have ex2: "applyChecklistToggle fence_example k checked
       = (if k = 0 \<and> checked
          then js ''- [x] a\<newline>```\<newline>- [ ] fake\<newline>```\<newline>- [ ] b''
          else if k = 1 \<and> checked
          then js ''- [ ] a\<newline>```\<newline>- [ ] fake\<newline>```\<newline>- [x] b''
          else fence_example)"
    by (simp add: fence_example_def checklist_eval)
  have ex3: "applyChecklistToggle two_backtick_example 0 True = js ''``\<newline>- [x] q\<newline>``''"
    by (simp add: two_backtick_example_def checklist_eval)
  have g1: "\<not> (0 \<le> k \<and> k < int (length (checklist_lines content))) \<longrightarrow>
        applyChecklistToggle content k checked = content"
    using applyChecklistToggle_unaddressed [of k content checked] by blast
  have g2: "0 \<le> k \<and> k < int (length (checklist_lines content)) \<longrightarrow>
        (\<exists>j ls1 line ls2. j < length (plain_segments content)
           \<and> split_nl (plain_segments content ! j) = ls1 @ line # ls2 \<and> is_checklist line
           \<and> line = checklist_lines content ! nat k
           \<and> length (checklist_lines_in (take j (plain_segments content)))
                + length (filter is_checklist ls1) = nat k
           \<and> applyChecklistToggle content k checked
               = interleave
                   ((plain_segments content)
                      [j := join_nl (ls1 @ rewrite_line checked line # ls2)])
                   (fences content))"
    using applyChecklistToggle_rewrites_line [of k content checked] by blast
  have s1: "first_fence content i n \<longrightarrow>
        plain_segments content = take i content # plain_segments (drop (i + n) content)
        \<and> fences content = take n (drop i content) # fences (drop (i + n) content)"
    using segments_of_first_fence [of content i n] by blast
  have s2: "(\<forall>i n. \<not> first_fence content i n) \<longrightarrow>
        plain_segments content = [content] \<and> fences content = []"
    using segments_without_fence [of content] by blast
  show ?thesis
    by (intro conjI fence_exec_iff fence_exec_None_iff s1 s2 interleave_segments
        length_plain_segments checklist_lines_in_segments g1 g2 ex1 ex2 ex3)
qed

theorem checklist_ordinals_skip_fences_witness:
  "first_fence fence_example 8 18
   \<and> plain_segments fence_example = [js ''- [ ] a\<newline>'', js ''\<newline>- [ ] b'']
   \<and> fences fence_example = [js ''```\<newline>- [ ] fake\<newline>```'']
   \<and> (0::int) \<le> 1 \<and> 1 < int (length (checklist_lines fence_example))
   \<and> (\<exists>j ls1 line ls2. j < length (plain_segments fence_example)
         \<and> split_nl (plain_segments fence_example ! j) = ls1 @ line # ls2 \<and> is_checklist line
         \<and> line = checklist_lines fence_example ! nat 1
         \<and> length (checklist_lines_in (take j (plain_segments fence_example)))
              + length (filter is_checklist ls1) = nat 1
         \<and> applyChecklistToggle fence_example 1 True
             = interleave
                 ((plain_segments fence_example)
                    [j := join_nl (ls1 @ rewrite_line True line # ls2)])
                 (fences fence_example))"
proof -
  have f: "fence_exec fence_example = Some (8, 18)"
    by (simp add: fence_example_def fence_exec_def)
  have h: "0 \<le> (1::int) \<and> 1 < int (length (checklist_lines fence_example))"
    by (simp add: fence_example_def checklist_eval)
  have p: "plain_segments fence_example = [js ''- [ ] a\<newline>'', js ''\<newline>- [ ] b'']"
    by (simp add: fence_example_def segment_eval)
  have q: "fences fence_example = [js ''```\<newline>- [ ] fake\<newline>```'']"
    by (simp add: fence_example_def segment_eval)
  note t = checklist_ordinals_skip_fences [of fence_example 8 18 fence_example 1 True]
  from t f have "first_fence fence_example 8 18" by blast
  moreover from t h have "\<exists>j ls1 line ls2. j < length (plain_segments fence_example)
         \<and> split_nl (plain_segments fence_example ! j) = ls1 @ line # ls2 \<and> is_checklist line
         \<and> line = checklist_lines fence_example ! nat 1
         \<and> length (checklist_lines_in (take j (plain_segments fence_example)))
              + length (filter is_checklist ls1) = nat 1
         \<and> applyChecklistToggle fence_example 1 True
             = interleave
                 ((plain_segments fence_example)
                    [j := join_nl (ls1 @ rewrite_line True line # ls2)])
                 (fences fence_example)"
    by blast
  ultimately show ?thesis using h p q by blast
qed


end
